theory Spec2Isabelle
  imports Main "HOL-Library.Word"
begin

section \<open>The ring hash of package ring: data model\<close>

text \<open>
  Hash positions and slice positions are Go \<open>uint64\<close> values, modelled as 64-bit words.
  Go \<open>int\<close> values (indices, orders, virtual factors) are modelled as mathematical
  integers; the only arithmetic on them that can leave the 64-bit range, the product
  \<open>VFactor * BaseVFactor\<close>, has its wrap-around written out in \<open>mul64\<close>.
\<close>

type_synonym uint64 = "64 word"

datatype error =
    ErrInvalidBaseVFactor
  | ErrNodeNotFound
  | ErrSliceHashCollision
  | ErrOutOfBounds
  | ErrKeyAlreadyExists
  | ErrNilKey
  | ErrKeyNotFound
  | ErrNodeAlreadyExists
  | ErrSliceAlreadyExists

text \<open>Run-time panics of Go, as opposed to returned errors.\<close>

datatype panic = IndexOutOfRange | NilDereference

record 'a Op =
  OpKey :: string
  OpNode :: string
  Payload :: 'a
  Removed :: bool
  Updated :: bool
  RingChange :: bool

record Node =
  Identifier :: string
  VFactor :: int

record InnerKey =
  Key :: string
  Order :: int

text \<open>\<open>Key[T]\<close> embeds a pointer to an \<open>InnerKey\<close>, which may be nil.\<close>

record 'a KeyT =
  InnerKey :: "InnerKey option"
  Value :: 'a

text \<open>
  The ring. The maps are Go maps; \<open>mu\<close> records whether the write lock of the ring is
  held. The notification hub is represented by its input: \<open>notified\<close> is the sequence of
  operations handed to \<open>notify\<close>, oldest first, and \<open>notifiedLocked\<close> records, for each
  of them, whether \<open>mu\<close> was held at that moment.
\<close>

record 'a Ring =
  slices :: "uint64 list"
  hashes :: "uint64 list"
  empty_m :: "uint64 \<rightharpoonup> uint64"
  nodesBySlice :: "uint64 \<rightharpoonup> string"
  vFactorByNode :: "string \<rightharpoonup> int"
  slicesByHash :: "uint64 \<rightharpoonup> uint64"
  keysByHash :: "uint64 \<rightharpoonup> InnerKey list"
  contentByKey :: "string \<rightharpoonup> 'a"
  hashesByKey :: "string \<rightharpoonup> uint64"
  mu :: bool
  Hash :: "string \<Rightarrow> uint64"
  BaseVFactor :: int
  ToSliceName :: "string \<Rightarrow> int \<Rightarrow> string"
  notified :: "'a Op list"
  notifiedLocked :: "bool list"

subsection \<open>Results of operations\<close>

text \<open>
  An operation that may fail to return yields \<open>None\<close>; one that panics yields
  \<open>Some (Inl p)\<close>; one that returns yields \<open>Some (Inr v)\<close>.
\<close>

type_synonym 'a result = "(panic + 'a) option"

definition ret :: "'a \<Rightarrow> 'a result" where
  "ret x = Some (Inr x)"

definition raise :: "panic \<Rightarrow> 'a result" where
  "raise p = Some (Inl p)"

definition bnd :: "'a result \<Rightarrow> ('a \<Rightarrow> 'b result) \<Rightarrow> 'b result" where
  "bnd m f = (case m of None \<Rightarrow> None | Some (Inl p) \<Rightarrow> Some (Inl p) | Some (Inr x) \<Rightarrow> f x)"

text \<open>Reading a Go map yields the zero value of the value type for a missing key.\<close>

definition map_get :: "'v \<Rightarrow> ('k \<rightharpoonup> 'v) \<Rightarrow> 'k \<Rightarrow> 'v" where
  "map_get z m k = (case m k of None \<Rightarrow> z | Some v \<Rightarrow> v)"

text \<open>Indexing a Go slice panics outside \<open>[0, len)\<close>.\<close>

definition index :: "'a list \<Rightarrow> int \<Rightarrow> 'a result" where
  "index xs i = (if 0 \<le> i \<and> i < int (length xs) then ret (xs ! nat i) else raise IndexOutOfRange)"

text \<open>Go's \<open>int\<close> multiplication wraps around in 64-bit two's complement.\<close>

definition mul64 :: "int \<Rightarrow> int \<Rightarrow> int" where
  "mul64 a b = sint (word_of_int (a * b) :: 64 word)"

section \<open>The ordered index\<close>

text \<open>
  \<open>sort.Search\<close> of Go's standard library: binary search for the smallest index in
  \<open>[0, n)\<close> at which \<open>f\<close> holds, \<open>n\<close> if there is none (for a monotone \<open>f\<close>).
\<close>

function sort_Search_loop :: "nat \<Rightarrow> nat \<Rightarrow> (nat \<Rightarrow> bool) \<Rightarrow> nat" where
  "sort_Search_loop i j f =
     (if i < j then
        (if \<not> f ((i + j) div 2) then sort_Search_loop ((i + j) div 2 + 1) j f
         else sort_Search_loop i ((i + j) div 2) f)
      else i)"
  by pat_completeness auto
termination
  by (relation "measure (\<lambda>(i, j, f). j - i)") auto

declare sort_Search_loop.simps [simp del]

definition sort_Search :: "nat \<Rightarrow> (nat \<Rightarrow> bool) \<Rightarrow> nat" where
  "sort_Search n f = sort_Search_loop 0 n f"

definition findKeyIndex :: "InnerKey list \<Rightarrow> InnerKey \<Rightarrow> int" where
  "findKeyIndex t k = int (sort_Search (length t) (\<lambda>i. Order (t ! i) \<ge> Order k))"

fun findKeyByName_loop :: "InnerKey list \<Rightarrow> string \<Rightarrow> int \<Rightarrow> int" where
  "findKeyByName_loop [] name idx = - 1"
| "findKeyByName_loop (key # keys) name idx =
     (if Key key = name then idx else findKeyByName_loop keys name (idx + 1))"

definition findKeyByName :: "InnerKey list \<Rightarrow> string \<Rightarrow> int" where
  "findKeyByName keys name = findKeyByName_loop keys name 0"

definition findIndex :: "uint64 list \<Rightarrow> uint64 \<Rightarrow> int" where
  "findIndex arr val = int (sort_Search (length arr) (\<lambda>i. arr ! i \<ge> val))"

definition findPrevIndex :: "'a list \<Rightarrow> int \<Rightarrow> int" where
  "findPrevIndex arr idx = (if idx = 0 then int (length arr) - 1 else idx - 1)"

definition findNextIndex :: "'a list \<Rightarrow> int \<Rightarrow> int" where
  "findNextIndex arr idx = (if idx = int (length arr) - 1 then 0 else idx + 1)"

text \<open>
  \<open>insertPreserveOrder\<close> inserts \<open>val\<close> at the index the search function returns. Both
  search functions passed to it return an index in \<open>[0, len]\<close>; for another index the
  slice expression \<open>arr[:idx+1]\<close> is out of range.
\<close>

definition insertPreserveOrder ::
  "'a list \<Rightarrow> 'a \<Rightarrow> ('a list \<Rightarrow> 'a \<Rightarrow> int) \<Rightarrow> ('a list \<times> int) result" where
  "insertPreserveOrder arr val findIdx =
     (let idx = findIdx arr val in
      if idx = int (length arr) then ret (arr @ [val], idx)
      else if idx < 0 \<or> int (length arr) < idx then raise IndexOutOfRange
      else ret (take (nat idx) arr @ [val] @ drop (nat idx) arr, idx))"

definition removeIndex :: "'a list \<Rightarrow> int \<Rightarrow> 'a list \<times> error option" where
  "removeIndex arr idx =
     (if length arr = 0 then ([], None)
      else if idx < 0 \<or> idx \<ge> int (length arr) then (arr, Some ErrOutOfBounds)
      else (take (nat idx) arr @ drop (nat idx + 1) arr, None))"

section \<open>The ring core\<close>

text \<open>
  \<open>notify\<close> hands an operation to the notification hub, which delivers it to the
  watcher registered for it, if any.
\<close>

definition notify :: "'a Ring \<Rightarrow> 'a Op \<Rightarrow> 'a Ring" where
  "notify ring op =
     ring\<lparr>notified := notified ring @ [op], notifiedLocked := notifiedLocked ring @ [mu ring]\<rparr>"

definition insertHash :: "'a Ring \<Rightarrow> uint64 \<Rightarrow> 'a Ring result" where
  "insertHash ring hash =
     (let idx = findIndex (hashes ring) hash in
      if idx \<ge> int (length (hashes ring)) \<or> hashes ring ! nat idx \<noteq> hash then
        bnd (insertPreserveOrder (hashes ring) hash findIndex)
          (\<lambda>(hs, i). ret (ring\<lparr>hashes := hs\<rparr>))
      else ret ring)"

definition removeHash :: "'a Ring \<Rightarrow> uint64 \<Rightarrow> 'a Ring" where
  "removeHash ring hash =
     (let idx = findIndex (hashes ring) hash in
      if idx < int (length (hashes ring)) \<and> hashes ring ! nat idx = hash then
        ring\<lparr>hashes := fst (removeIndex (hashes ring) idx)\<rparr>
      else ring)"

text \<open>The two notification loops of \<open>convertHash\<close>, around the reassignment.\<close>

definition convertHash :: "('a::zero) Ring \<Rightarrow> uint64 \<Rightarrow> uint64 \<Rightarrow> 'a Ring" where
  "convertHash ring sl hash =
     (let prevSlice = map_get 0 (slicesByHash ring) hash;
          ring1 = foldl (\<lambda>r key. notify r
                    \<lparr>OpKey = Key key, OpNode = map_get [] (nodesBySlice r) prevSlice,
                     Payload = map_get 0 (contentByKey r) (Key key),
                     Removed = True, Updated = False, RingChange = True\<rparr>)
                  ring (map_get [] (keysByHash ring) hash);
          ring2 = ring1\<lparr>slicesByHash := (slicesByHash ring1)(hash \<mapsto> sl)\<rparr>
      in foldl (\<lambda>r key. notify r
                    \<lparr>OpKey = Key key, OpNode = map_get [] (nodesBySlice r) sl,
                     Payload = map_get 0 (contentByKey r) (Key key),
                     Removed = False, Updated = False, RingChange = True\<rparr>)
           ring2 (map_get [] (keysByHash ring2) hash))"

text \<open>
  The range loop of \<open>convertHashes\<close>. It returns only when the start index reaches the
  end index, so it is a partial function: \<open>None\<close> stands for a loop that never returns.
\<close>

partial_function (option) convertHashes_loop ::
  "('a::zero) Ring \<Rightarrow> uint64 \<Rightarrow> int \<Rightarrow> int \<Rightarrow> (panic + 'a Ring) option" where
  "convertHashes_loop ring sl hashStartIndex hashEndIndex =
     (let start = (if hashStartIndex = int (length (hashes ring)) then 0 else hashStartIndex) in
      if start = hashEndIndex then Some (Inr ring)
      else if start < 0 \<or> int (length (hashes ring)) \<le> start then Some (Inl IndexOutOfRange)
      else convertHashes_loop (convertHash ring sl (hashes ring ! nat start)) sl
             (start + 1) hashEndIndex)"

definition convertHashes ::
  "('a::zero) Ring \<Rightarrow> uint64 \<Rightarrow> int \<Rightarrow> int \<Rightarrow> bool \<Rightarrow> 'a Ring result" where
  "convertHashes ring sl hashStartIndex hashEndIndex circle =
     (if circle \<and> hashStartIndex = hashEndIndex \<or>
         hashStartIndex = 0 \<and> hashEndIndex = int (length (hashes ring)) then
        ret (foldl (\<lambda>r hash. convertHash r sl hash) ring (hashes ring))
      else
        convertHashes_loop ring sl hashStartIndex
          (if hashEndIndex = int (length (hashes ring)) then 0 else hashEndIndex))"

text \<open>
  The first branch of \<open>insertSlice\<close> ranges over the Go map \<open>empty\<close>. Go leaves the
  order of a map iteration unspecified, so the order is a parameter here: \<open>ord\<close> lists
  the keys of the map in the order in which the run time yields them. An entry deleted
  before the iteration reaches it is not yielded.
\<close>

fun insertSlice_range :: "('a::zero) Ring \<Rightarrow> uint64 \<Rightarrow> uint64 list \<Rightarrow> 'a Ring" where
  "insertSlice_range ring sl [] = ring"
| "insertSlice_range ring sl (k # ks) =
     (case empty_m ring k of
        None \<Rightarrow> insertSlice_range ring sl ks
      | Some hash \<Rightarrow>
          (let ring1 = ring\<lparr>slicesByHash := (slicesByHash ring)(hash \<mapsto> sl)\<rparr>;
               ring2 = foldl (\<lambda>r key. notify r
                         \<lparr>OpKey = Key key, OpNode = map_get [] (nodesBySlice r) sl,
                          Payload = map_get 0 (contentByKey r) (Key key),
                          Removed = False, Updated = False, RingChange = True\<rparr>)
                       ring1 (map_get [] (keysByHash ring1) hash)
           in insertSlice_range (ring2\<lparr>empty_m := (empty_m ring2)(hash := None)\<rparr>) sl ks))"

definition insertSlice ::
  "('a::zero) Ring \<Rightarrow> uint64 \<Rightarrow> string \<Rightarrow> uint64 list \<Rightarrow> ('a Ring \<times> error option) result" where
  "insertSlice ring sl node ord =
     (case nodesBySlice ring sl of
        Some n \<Rightarrow> ret (ring, Some ErrSliceAlreadyExists)
      | None \<Rightarrow>
          bnd (insertPreserveOrder (slices ring) sl findIndex) (\<lambda>(ss, idx).
            (let ring1 = ring\<lparr>slices := ss, nodesBySlice := (nodesBySlice ring)(sl \<mapsto> node)\<rparr> in
             if length (slices ring1) = 1 then ret (insertSlice_range ring1 sl ord, None)
             else
               bnd (index (slices ring1) (findNextIndex (slices ring1) idx)) (\<lambda>nextSlice.
               bnd (convertHashes ring1 sl (findIndex (hashes ring1) sl)
                      (findIndex (hashes ring1) nextSlice) (nextSlice < sl)) (\<lambda>ring2.
               ret (ring2, None))))))"

text \<open>One round of the loop of \<open>removeSlice\<close> that moves the hashes of the final slice.\<close>

definition removeSlice_move :: "uint64 \<Rightarrow> ('a::zero) Ring \<Rightarrow> uint64 \<Rightarrow> 'a Ring" where
  "removeSlice_move sl ring hash =
     (let ring1 = foldl (\<lambda>r key. notify r
                    \<lparr>OpKey = Key key, OpNode = map_get [] (nodesBySlice r) sl,
                     Payload = map_get 0 (contentByKey r) (Key key),
                     Removed = True, Updated = False, RingChange = True\<rparr>)
                  ring (map_get [] (keysByHash ring) hash)
      in ring1\<lparr>empty_m := (empty_m ring1)(hash \<mapsto> hash)\<rparr>)"

definition removeSlice :: "('a::zero) Ring \<Rightarrow> uint64 \<Rightarrow> 'a Ring result" where
  "removeSlice ring sl =
     (case nodesBySlice ring sl of
        None \<Rightarrow> ret ring
      | Some n \<Rightarrow>
          (let sliceIdx = findIndex (slices ring) sl in
           bnd (if length (slices ring) = 1 then
                  ret (foldl (removeSlice_move sl) ring (hashes ring))
                else
                  bnd (index (slices ring) (findPrevIndex (slices ring) sliceIdx)) (\<lambda>prevSlice.
                  bnd (index (slices ring) (findNextIndex (slices ring) sliceIdx)) (\<lambda>nextSlice.
                  convertHashes ring prevSlice (findIndex (hashes ring) sl)
                    (findIndex (hashes ring) nextSlice) (nextSlice < sl))))
             (\<lambda>ring1. ret (ring1\<lparr>slices := fst (removeIndex (slices ring1) sliceIdx),
                                  nodesBySlice := (nodesBySlice ring1)(sl := None)\<rparr>))))"

subsection \<open>Node lifecycle\<close>

text \<open>
  \<open>ring.mu.Lock()\<close> followed by \<open>defer ring.mu.Unlock()\<close>: the body runs with the write
  lock held and the lock is released when the body returns.
\<close>

definition lock :: "'a Ring \<Rightarrow> 'a Ring" where
  "lock ring = ring\<lparr>mu := True\<rparr>"

definition unlock :: "'a Ring \<Rightarrow> 'a Ring" where
  "unlock ring = ring\<lparr>mu := False\<rparr>"

text \<open>
  The loops over the virtual slices of a node, \<open>for idx := lo; idx < hi; idx++\<close>, run
  over the list of the indices. The map iteration order \<open>ord\<close> is passed to every
  insertion; only an insertion into a ring without slices reads it.
\<close>

fun CreateNode_loop ::
  "('a::zero) Ring \<Rightarrow> string \<Rightarrow> int list \<Rightarrow> uint64 list \<Rightarrow> ('a Ring \<times> error option) result" where
  "CreateNode_loop ring identifier [] ord = ret (ring, None)"
| "CreateNode_loop ring identifier (idx # idxs) ord =
     bnd (insertSlice ring (Hash ring (ToSliceName ring identifier idx)) identifier ord)
       (\<lambda>(ring1, err). case err of
            Some e \<Rightarrow> ret (ring1, Some e)
          | None \<Rightarrow> CreateNode_loop ring1 identifier idxs ord)"

definition CreateNode ::
  "('a::zero) Ring \<Rightarrow> Node \<Rightarrow> uint64 list \<Rightarrow> ('a Ring \<times> error option) result" where
  "CreateNode ring0 node ord =
     (let ring = lock ring0 in
      bnd (case vFactorByNode ring (Identifier node) of
             Some v \<Rightarrow> ret (ring, Some ErrNodeAlreadyExists)
           | None \<Rightarrow>
               (let ring1 = ring\<lparr>vFactorByNode := (vFactorByNode ring)(Identifier node \<mapsto> VFactor node)\<rparr>
                in CreateNode_loop ring1 (Identifier node)
                     [0 .. mul64 (VFactor node) (BaseVFactor ring1) - 1] ord))
        (\<lambda>(ring2, err). ret (unlock ring2, err)))"





subsection \<open>Key lifecycle\<close>

text \<open>
  \<open>Emplace\<close> takes a pointer to a key (\<open>None\<close> is nil) and the variadic hash keys
  \<open>hk\<close>.
\<close>

definition Emplace ::
  "('a::zero) Ring \<Rightarrow> 'a KeyT option \<Rightarrow> string list \<Rightarrow> ('a Ring \<times> error option) result" where
  "Emplace ring0 key hk =
     (case key of
        None \<Rightarrow> ret (ring0, Some ErrNilKey)
      | Some k \<Rightarrow>
          (let ring = lock ring0 in
           bnd (case InnerKey k of
                  None \<Rightarrow> raise NilDereference
                | Some ik \<Rightarrow>
                    (case hashesByKey ring (Key ik) of
                       Some h \<Rightarrow> ret (ring, Some ErrKeyAlreadyExists)
                     | None \<Rightarrow>
                         (let ring1 = ring\<lparr>contentByKey := (contentByKey ring)(Key ik \<mapsto> Value k)\<rparr>;
                              hashKey = (if length hk = 0 then Key ik else hk ! 0);
                              hash = Hash ring1 hashKey
                          in
                          bnd (insertHash ring1 hash) (\<lambda>ring2.
                          bnd (if length (slices ring2) = 0 then
                                 ret (notify (ring2\<lparr>empty_m := (empty_m ring2)(hash \<mapsto> hash)\<rparr>)
                                        \<lparr>OpKey = Key ik, OpNode = [], Payload = Value k,
                                         Removed = False, Updated = False, RingChange = False\<rparr>)
                               else
                                 bnd (index (slices ring2)
                                        (findPrevIndex (slices ring2) (findIndex (slices ring2) hash)))
                                   (\<lambda>sl.
                                 (let ring3 = ring2\<lparr>slicesByHash := (slicesByHash ring2)(hash \<mapsto> sl)\<rparr>
                                  in ret (notify ring3
                                        \<lparr>OpKey = Key ik, OpNode = map_get [] (nodesBySlice ring3) sl,
                                         Payload = Value k,
                                         Removed = False, Updated = False, RingChange = False\<rparr>))))
                            (\<lambda>ring4.
                          bnd (insertPreserveOrder (map_get [] (keysByHash ring4) hash) ik findKeyIndex)
                            (\<lambda>(keys, i).
                          ret (ring4\<lparr>keysByHash := (keysByHash ring4)(hash \<mapsto> keys),
                                     hashesByKey := (hashesByKey ring4)(Key ik \<mapsto> hash)\<rparr>,
                               None)))))))
             (\<lambda>(ring5, err). ret (unlock ring5, err))))"

text \<open>\<open>Update\<close> does not take the lock of the ring.\<close>

definition Update ::
  "('a::zero) Ring \<Rightarrow> 'a KeyT option \<Rightarrow> ('a Ring \<times> error option) result" where
  "Update ring key =
     (case key of
        None \<Rightarrow> ret (ring, Some ErrNilKey)
      | Some k \<Rightarrow>
          (case InnerKey k of
             None \<Rightarrow> raise NilDereference
           | Some ik \<Rightarrow>
               (case contentByKey ring (Key ik) of
                  None \<Rightarrow> ret (ring, Some ErrKeyNotFound)
                | Some c \<Rightarrow>
                    (let ring1 = ring\<lparr>contentByKey := (contentByKey ring)(Key ik \<mapsto> Value k)\<rparr>
                     in ret (notify ring1
                          \<lparr>OpKey = Key ik,
                           OpNode = map_get [] (nodesBySlice ring1)
                                      (map_get 0 (slicesByHash ring1)
                                         (map_get 0 (hashesByKey ring1) (Key ik))),
                           Payload = Value k,
                           Removed = False, Updated = True, RingChange = False\<rparr>, None)))))"

definition Remove :: "('a::zero) Ring \<Rightarrow> string \<Rightarrow> 'a Ring" where
  "Remove ring0 key =
     (let ring = lock ring0 in
      unlock
        (case hashesByKey ring key of
           None \<Rightarrow> ring
         | Some hash \<Rightarrow>
             (let ring1 = ring\<lparr>contentByKey := (contentByKey ring)(key := None)\<rparr>;
                  ring2 = ring1\<lparr>keysByHash := (keysByHash ring1)(hash \<mapsto>
                            fst (removeIndex (map_get [] (keysByHash ring1) hash)
                                   (findKeyByName (map_get [] (keysByHash ring1) hash) key)))\<rparr>;
                  ring3 = (if empty_m ring2 \<noteq> Map.empty then
                             notify (ring2\<lparr>empty_m := (empty_m ring2)(hash := None)\<rparr>)
                               \<lparr>OpKey = key, OpNode = [], Payload = 0,
                                Removed = True, Updated = False, RingChange = False\<rparr>
                           else
                             notify ring2
                               \<lparr>OpKey = key,
                                OpNode = map_get [] (nodesBySlice ring2)
                                           (map_get 0 (slicesByHash ring2) hash),
                                Payload = 0,
                                Removed = True, Updated = False, RingChange = False\<rparr>);
                  ring4 = (if length (map_get [] (keysByHash ring3) hash) = 0 then
                             (let ring5 = removeHash ring3 hash
                              in ring5\<lparr>slicesByHash := (slicesByHash ring5)(hash := None)\<rparr>)
                           else ring3)
              in ring4\<lparr>hashesByKey := (hashesByKey ring4)(key := None)\<rparr>)))"

subsection \<open>Construction\<close>

text \<open>Decimal rendering of a Go \<open>int\<close>, as \<open>fmt.Sprintf\<close> does for \<open>%d\<close>.\<close>

function itoa_nat :: "nat \<Rightarrow> string" where
  "itoa_nat n = (if n < 10 then [''0123456789'' ! n]
                 else itoa_nat (n div 10) @ [''0123456789'' ! (n mod 10)])"
  by pat_completeness auto
termination
  by (relation "measure (\<lambda>n. n)") auto

declare itoa_nat.simps [simp del]

definition itoa :: "int \<Rightarrow> string" where
  "itoa i = (if i < 0 then CHR ''-'' # itoa_nat (nat (- i)) else itoa_nat (nat i))"

text \<open>
  \<open>New\<close> builds a ring with the default settings and applies the options to it. The
  default hash function \<open>MD5\<close> (the first eight bytes of the MD5 digest, big-endian) is
  a parameter.
\<close>

definition default_ring :: "(string \<Rightarrow> uint64) \<Rightarrow> 'a Ring" where
  "default_ring MD5 =
     \<lparr>slices = [], hashes = [], empty_m = Map.empty, nodesBySlice = Map.empty,
      vFactorByNode = Map.empty, slicesByHash = Map.empty, keysByHash = Map.empty,
      contentByKey = Map.empty, hashesByKey = Map.empty, mu = False,
      Hash = MD5, BaseVFactor = 1, ToSliceName = (\<lambda>s i. s @ itoa i),
      notified = [], notifiedLocked = []\<rparr>"

definition New :: "(string \<Rightarrow> uint64) \<Rightarrow> ('a Ring \<Rightarrow> 'a Ring) list \<Rightarrow> error + 'a Ring" where
  "New MD5 options =
     (let ring = foldl (\<lambda>r opt. opt r) (default_ring MD5) options
      in if BaseVFactor ring < 1 then Inl ErrInvalidBaseVFactor else Inr ring)"

section \<open>Notions of the specification\<close>

text \<open>
  The notifications of one reassignment, in the words of the specification: for every
  key at the position, in the order of the key list, a removal against the node of the
  old owner, then, for every key, an addition against the node of the new owner.
\<close>

definition removal_ops :: "('a::zero) Ring \<Rightarrow> uint64 \<Rightarrow> 'a Op list" where
  "removal_ops ring hash =
     map (\<lambda>key. \<lparr>OpKey = Key key,
                 OpNode = map_get [] (nodesBySlice ring) (map_get 0 (slicesByHash ring) hash),
                 Payload = map_get 0 (contentByKey ring) (Key key),
                 Removed = True, Updated = False, RingChange = True\<rparr>)
       (map_get [] (keysByHash ring) hash)"

definition addition_ops :: "('a::zero) Ring \<Rightarrow> uint64 \<Rightarrow> uint64 \<Rightarrow> 'a Op list" where
  "addition_ops ring sl hash =
     map (\<lambda>key. \<lparr>OpKey = Key key,
                 OpNode = map_get [] (nodesBySlice ring) sl,
                 Payload = map_get 0 (contentByKey ring) (Key key),
                 Removed = False, Updated = False, RingChange = True\<rparr>)
       (map_get [] (keysByHash ring) hash)"

definition reassign_ops :: "('a::zero) Ring \<Rightarrow> uint64 \<Rightarrow> uint64 list \<Rightarrow> 'a Op list" where
  "reassign_ops ring sl vs = concat (map (\<lambda>h. removal_ops ring h @ addition_ops ring sl h) vs)"

text \<open>
  The walk of the specification over a sequence of length \<open>n\<close>: circularly from the
  start index (inclusive) to the end index (exclusive), index \<open>n\<close> wrapping to 0.
\<close>

definition circular_walk :: "nat \<Rightarrow> nat \<Rightarrow> nat \<Rightarrow> nat list" where
  "circular_walk n s e =
     (let s' = (if s = n then 0 else s); e' = (if e = n then 0 else e)
      in if s' \<le> e' then [s' ..< e'] else [s' ..< n] @ [0 ..< e'])"

text \<open>
  The hash positions that the range reassignment visits, in the order of the visits,
  according to the specification.
\<close>

definition reassigned :: "uint64 list \<Rightarrow> int \<Rightarrow> int \<Rightarrow> bool \<Rightarrow> uint64 list" where
  "reassigned hs s e circle =
     (if circle \<and> s = e \<or> s = 0 \<and> e = int (length hs) then hs
      else map (\<lambda>i. hs ! i) (circular_walk (length hs) (nat s) (nat e)))"


text \<open>
  The ordered index in the words of the specification. \<open>locate\<close> is the smallest index
  at which the sequence holds a value not below \<open>v\<close>, the length of the sequence if there
  is none. The circular previous index of \<open>i\<close> in a sequence of length \<open>n\<close> is the
  index before \<open>i\<close>, the last index for \<open>i = 0\<close>.
\<close>

definition locate :: "uint64 list \<Rightarrow> uint64 \<Rightarrow> nat" where
  "locate sq v = length (takeWhile (\<lambda>x. x < v) sq)"

definition circular_prev :: "nat \<Rightarrow> nat \<Rightarrow> nat" where
  "circular_prev n i = (i + n - 1) mod n"


section \<open>Example rings\<close>

text \<open>
  A hash function for the examples: the slice names \<open>A0\<close> and \<open>B0\<close> and the keys
  \<open>k1\<close>, \<open>k2\<close>, \<open>k3\<close> get fixed positions, every other string position 0.
\<close>

definition example_hash :: "string \<Rightarrow> uint64" where
  "example_hash s =
     (if s = ''A0'' then 10 else if s = ''B0'' then 20
      else if s = ''k1'' then 15 else if s = ''k2'' then 25 else if s = ''k3'' then 5
      else 0)"

text \<open>The ring of the test \<open>TestHomogeneousConvertHashes\<close>.\<close>

definition ring_homogeneous :: "nat Ring" where
  "ring_homogeneous =
     (default_ring example_hash)
       \<lparr>hashes := [1, 2, 5, 6],
        slicesByHash := [1 \<mapsto> 2, 2 \<mapsto> 2, 5 \<mapsto> 2, 6 \<mapsto> 2]\<rparr>"

text \<open>
  A ring with the nodes \<open>A\<close> (slice 10) and \<open>B\<close> (slice 20) and the key \<open>x\<close> at hash
  position 20, owned by slice 20. It is the state after \<open>CreateNode A\<close>,
  \<open>Emplace x\<close> with hash key \<open>B0\<close>, \<open>CreateNode B\<close> on a new ring with
  \<open>example_hash\<close>.
\<close>

definition ring_AB :: "nat Ring" where
  "ring_AB =
     (default_ring example_hash)
       \<lparr>slices := [10, 20],
        hashes := [20],
        nodesBySlice := [10 \<mapsto> ''A'', 20 \<mapsto> ''B''],
        vFactorByNode := [''A'' \<mapsto> 1, ''B'' \<mapsto> 1],
        slicesByHash := [20 \<mapsto> 20],
        keysByHash := [20 \<mapsto> [\<lparr>Key = ''x'', Order = 0\<rparr>]],
        contentByKey := [''x'' \<mapsto> 7],
        hashesByKey := [''x'' \<mapsto> 20],
        notified :=
          [\<lparr>OpKey = ''x'', OpNode = ''A'', Payload = 7,
            Removed = False, Updated = False, RingChange = False\<rparr>,
           \<lparr>OpKey = ''x'', OpNode = ''A'', Payload = 7,
            Removed = True, Updated = False, RingChange = True\<rparr>,
           \<lparr>OpKey = ''x'', OpNode = ''B'', Payload = 7,
            Removed = False, Updated = False, RingChange = True\<rparr>],
        notifiedLocked := [True, True, True]\<rparr>"

text \<open>
  A ring without slices whose pool holds the positions 5 (key \<open>k3\<close>) and 15
  (key \<open>k1\<close>).
\<close>

definition ring_pool :: "nat Ring" where
  "ring_pool =
     (default_ring example_hash)
       \<lparr>hashes := [5, 15],
        empty_m := [5 \<mapsto> 5, 15 \<mapsto> 15],
        keysByHash := [5 \<mapsto> [\<lparr>Key = ''k3'', Order = 0\<rparr>], 15 \<mapsto> [\<lparr>Key = ''k1'', Order = 0\<rparr>]],
        contentByKey := [''k3'' \<mapsto> 3, ''k1'' \<mapsto> 1],
        hashesByKey := [''k3'' \<mapsto> 5, ''k1'' \<mapsto> 15]\<rparr>"

text \<open>
  A ring with the node \<open>A\<close> (slice 10) and two keys at the hash position 15, as in the
  test \<open>TestRingKeyOrdering\<close>, where several keys share one position.
\<close>

definition ring_two_keys :: "nat Ring" where
  "ring_two_keys =
     (default_ring example_hash)
       \<lparr>slices := [10],
        hashes := [15],
        nodesBySlice := [10 \<mapsto> ''A''],
        vFactorByNode := [''A'' \<mapsto> 1],
        slicesByHash := [15 \<mapsto> 10],
        keysByHash := [15 \<mapsto> [\<lparr>Key = ''key-1'', Order = 0\<rparr>, \<lparr>Key = ''key-2'', Order = 1\<rparr>]],
        contentByKey := [''key-1'' \<mapsto> 1, ''key-2'' \<mapsto> 2],
        hashesByKey := [''key-1'' \<mapsto> 15, ''key-2'' \<mapsto> 15]\<rparr>"


text \<open>
  The ring \<open>ring_AB\<close> with a second key, \<open>w\<close>, at the hash position 5, below both
  slices. It is the state after \<open>CreateNode A\<close>, \<open>Emplace x\<close> with hash key \<open>B0\<close>,
  \<open>Emplace w\<close> with hash key \<open>k3\<close>, \<open>CreateNode B\<close>; the notifications are left out.
\<close>

definition ring_wrap :: "nat Ring" where
  "ring_wrap =
     (default_ring example_hash)
       \<lparr>slices := [10, 20],
        hashes := [5, 20],
        nodesBySlice := [10 \<mapsto> ''A'', 20 \<mapsto> ''B''],
        vFactorByNode := [''A'' \<mapsto> 1, ''B'' \<mapsto> 1],
        slicesByHash := [5 \<mapsto> 20, 20 \<mapsto> 20],
        keysByHash := [5 \<mapsto> [\<lparr>Key = ''w'', Order = 0\<rparr>], 20 \<mapsto> [\<lparr>Key = ''x'', Order = 0\<rparr>]],
        contentByKey := [''x'' \<mapsto> 7, ''w'' \<mapsto> 9],
        hashesByKey := [''x'' \<mapsto> 20, ''w'' \<mapsto> 5]\<rparr>"



section \<open>Lemmas: the ordered index\<close>

section \<open>The ordered index: removal by index\<close>

text \<open>
  Claim C7, as amended. \<open>removeIndex\<close> fails with the out-of-bounds error exactly when
  the sequence is not empty and the index lies outside \<open>[0, len)\<close>; on that failure the
  sequence comes back unchanged. On an empty sequence it reports no error, whatever the
  index, and returns the empty sequence.
\<close>

theorem removeIndex_out_of_bounds:
  "(snd (removeIndex arr idx) = Some ErrOutOfBounds
      \<longleftrightarrow> arr \<noteq> [] \<and> (idx < 0 \<or> idx \<ge> int (length arr)))
   \<and> (snd (removeIndex arr idx) = Some ErrOutOfBounds \<longrightarrow> fst (removeIndex arr idx) = arr)
   \<and> removeIndex [] idx = ([], None)"
  by (simp add: removeIndex_def)

theorem removeIndex_out_of_bounds_witness:
  "snd (removeIndex [7 :: uint64] 10) = Some ErrOutOfBounds
   \<and> fst (removeIndex [7 :: uint64] 10) = [7]
   \<and> snd (removeIndex [7 :: uint64] 0) \<noteq> Some ErrOutOfBounds"
  using removeIndex_out_of_bounds [of "[7 :: uint64]" 10]
        removeIndex_out_of_bounds [of "[7 :: uint64]" 0]
  by auto

text \<open>
  Claim C7 as stated fails on the empty sequence: index 0 is not a valid index of the
  empty sequence, and \<open>removeIndex\<close> reports no error for it.
\<close>

theorem removeIndex_empty_counterexample:
  "\<not> (snd (removeIndex ([] :: uint64 list) 0) = Some ErrOutOfBounds
        \<longleftrightarrow> (0 :: int) < 0 \<or> 0 \<ge> int (length ([] :: uint64 list)))"
  by (simp add: removeIndex_def)

lemma sort_Search_loop_bounds:
  "i \<le> j \<Longrightarrow> i \<le> sort_Search_loop i j f \<and> sort_Search_loop i j f \<le> j"
proof (induction i j f rule: sort_Search_loop.induct)
  case (1 i j f)
  show ?case
  proof (cases "i < j")
    case True
    let ?h = "(i + j) div 2"
    from True have h: "i \<le> ?h" "?h < j" by auto
    show ?thesis
    proof (cases "f ?h")
      case False
      with True 1(1) h show ?thesis by (subst (1 2) sort_Search_loop.simps) auto
    next
      case fh: True
      with True 1(2) h show ?thesis by (subst (1 2) sort_Search_loop.simps) auto
    qed
  next
    case False
    with 1(3) show ?thesis by (subst (1 2) sort_Search_loop.simps) auto
  qed
qed

lemma sort_Search_loop_mono:
  assumes mono: "\<And>a b. a \<le> b \<Longrightarrow> b < n \<Longrightarrow> f a \<Longrightarrow> f b"
  shows "i \<le> j \<Longrightarrow> j \<le> n \<Longrightarrow> (\<forall>k < i. \<not> f k) \<Longrightarrow> (\<forall>k. j \<le> k \<and> k < n \<longrightarrow> f k) \<Longrightarrow>
     (\<forall>k < sort_Search_loop i j f. \<not> f k) \<and> (\<forall>k. sort_Search_loop i j f \<le> k \<and> k < n \<longrightarrow> f k)"
  using mono
proof (induction i j f rule: sort_Search_loop.induct)
  case (1 i j f)
  note mono = "1.prems"(5)
  show ?case
  proof (cases "i < j")
    case True
    let ?h = "(i + j) div 2"
    from True have h: "i \<le> ?h" "?h < j" by auto
    from h "1.prems"(2) have hn: "?h < n" by simp
    show ?thesis
    proof (cases "f ?h")
      case False
      have nf: "\<forall>k < ?h + 1. \<not> f k"
      proof (intro allI impI)
        fix k assume "k < ?h + 1"
        then have kh: "k \<le> ?h" by simp
        show "\<not> f k"
        proof
          assume "f k"
          from mono[OF kh hn this] False show False by simp
        qed
      qed
      have "(\<forall>k < sort_Search_loop (?h + 1) j f. \<not> f k) \<and>
            (\<forall>k. sort_Search_loop (?h + 1) j f \<le> k \<and> k < n \<longrightarrow> f k)"
        by (rule 1(1)[OF True False _ "1.prems"(2) nf "1.prems"(4) mono]) (use h in simp_all)
      with True False show ?thesis by (subst (1 2) sort_Search_loop.simps) simp
    next
      case fh: True
      have ff: "\<forall>k. ?h \<le> k \<and> k < n \<longrightarrow> f k"
        using mono[of ?h] fh by auto
      have "(\<forall>k < sort_Search_loop i ?h f. \<not> f k) \<and>
            (\<forall>k. sort_Search_loop i ?h f \<le> k \<and> k < n \<longrightarrow> f k)"
        by (rule 1(2)[OF True _ h(1) _ "1.prems"(3) ff mono]) (use fh hn in simp_all)
      with True fh show ?thesis by (subst (1 2) sort_Search_loop.simps) simp
    qed
  next
    case False
    with "1.prems" have "i = j" by simp
    with "1.prems" show ?thesis by (subst (1 2) sort_Search_loop.simps) auto
  qed
qed

lemma sorted_take_drop_filter:
  fixes xs :: "('a::linorder) list"
  assumes "sorted xs"
  shows "take (length (filter (\<lambda>x. x < v) xs)) xs = filter (\<lambda>x. x < v) xs"
    and "drop (length (filter (\<lambda>x. x < v) xs)) xs = filter (\<lambda>x. \<not> x < v) xs"
  using assms
proof (induction xs)
  case Nil
  { case 1 show ?case by simp }
  { case 2 show ?case by simp }
next
  case (Cons x xs)
  { case 1
    show ?case
    proof (cases "x < v")
      case True
      with Cons 1 show ?thesis by simp
    next
      case False
      with 1 have "\<forall>y\<in>set xs. \<not> y < v" by auto
      then have "filter (\<lambda>x. x < v) xs = []" by (simp add: filter_empty_conv)
      with False show ?thesis by simp
    qed }
  { case 2
    show ?case
    proof (cases "x < v")
      case True
      with Cons 2 show ?thesis by simp
    next
      case False
      with 2 have a: "\<forall>y\<in>set xs. \<not> y < v" by auto
      then have "filter (\<lambda>x. x < v) xs = []" by (simp add: filter_empty_conv)
      moreover from a have "filter (\<lambda>x. \<not> x < v) xs = xs" by (simp add: filter_id_conv)
      ultimately show ?thesis using False by simp
    qed }
qed

lemma sort_Search_sorted:
  fixes xs :: "('a::linorder) list"
  assumes "sorted xs"
  shows "sort_Search (length xs) (\<lambda>i. v \<le> xs ! i) = length (filter (\<lambda>x. x < v) xs)"
proof -
  let ?f = "\<lambda>i. v \<le> xs ! i"
  let ?r = "sort_Search (length xs) ?f"
  have mono: "?f b" if "a \<le> b" "b < length xs" "?f a" for a b
    using sorted_nth_mono[OF assms that(1,2)] that(3) by (rule order_trans[rotated])
  have bnd: "?r \<le> length xs"
    using sort_Search_loop_bounds[of 0 "length xs" ?f] by (simp add: sort_Search_def)
  have inv: "(\<forall>k < ?r. \<not> ?f k) \<and> (\<forall>k. ?r \<le> k \<and> k < length xs \<longrightarrow> ?f k)"
    unfolding sort_Search_def
  proof (rule sort_Search_loop_mono[where n = "length xs"])
    show "?f b" if "a \<le> b" "b < length xs" "?f a" for a b
      using that by (rule mono)
    show "\<forall>k. length xs \<le> k \<and> k < length xs \<longrightarrow> ?f k"
      by (intro allI impI) linarith
  qed simp_all
  have lo: "\<forall>y \<in> set (take ?r xs). y < v"
    unfolding all_set_conv_all_nth
  proof (intro allI impI)
    fix i assume "i < length (take ?r xs)"
    then have "i < ?r" by simp
    with inv have "\<not> v \<le> xs ! i" by blast
    with \<open>i < ?r\<close> show "take ?r xs ! i < v" by simp
  qed
  have hi: "\<forall>y \<in> set (drop ?r xs). \<not> y < v"
    unfolding all_set_conv_all_nth
  proof (intro allI impI)
    fix i assume "i < length (drop ?r xs)"
    then have i: "?r + i < length xs" by simp
    with inv have "v \<le> xs ! (?r + i)" by (meson le_add1)
    with bnd show "\<not> drop ?r xs ! i < v" by simp
  qed
  have "filter (\<lambda>x. x < v) xs = filter (\<lambda>x. x < v) (take ?r xs) @ filter (\<lambda>x. x < v) (drop ?r xs)"
    by (subst append_take_drop_id[of ?r xs, symmetric], subst filter_append) (rule refl)
  also have "\<dots> = take ?r xs"
    using lo hi by (simp add: filter_id_conv filter_empty_conv)
  finally show ?thesis using bnd by simp
qed

lemma findIndex_bounds: "0 \<le> findIndex xs v \<and> findIndex xs v \<le> int (length xs)"
  using sort_Search_loop_bounds[of 0 "length xs" "\<lambda>i. v \<le> xs ! i"]
  by (simp add: findIndex_def sort_Search_def)

lemma findIndex_sorted:
  "sorted xs \<Longrightarrow> findIndex xs v = int (length (filter (\<lambda>x. x < v) xs))"
  by (simp add: findIndex_def sort_Search_sorted)

lemma insertPreserveOrder_findIndex:
  "insertPreserveOrder xs v findIndex =
     ret (take (nat (findIndex xs v)) xs @ [v] @ drop (nat (findIndex xs v)) xs, findIndex xs v)"
  using findIndex_bounds[of xs v]
  by (simp add: insertPreserveOrder_def Let_def)

lemma findKeyIndex_bounds: "0 \<le> findKeyIndex t k \<and> findKeyIndex t k \<le> int (length t)"
  using sort_Search_loop_bounds[of 0 "length t" "\<lambda>i. Order k \<le> Order (t ! i)"]
  by (simp add: findKeyIndex_def sort_Search_def)

lemma insertPreserveOrder_findKeyIndex:
  "insertPreserveOrder t k findKeyIndex =
     ret (take (nat (findKeyIndex t k)) t @ [k] @ drop (nat (findKeyIndex t k)) t, findKeyIndex t k)"
  using findKeyIndex_bounds[of t k]
  by (simp add: insertPreserveOrder_def Let_def)





lemma filter_ge_sorted_distinct:
  fixes xs :: "('a::linorder) list"
  assumes "sorted xs" "distinct xs" "v \<in> set xs"
  shows "filter (\<lambda>x. \<not> x < v) xs = v # filter (\<lambda>x. v < x) xs"
  using assms
proof (induction xs)
  case Nil
  then show ?case by simp
next
  case (Cons x xs)
  show ?case
  proof (cases "x = v")
    case True
    with Cons.prems have "\<forall>y\<in>set xs. v < y" by (auto simp: order_less_le)
    then have "filter (\<lambda>x. \<not> x < v) xs = filter (\<lambda>x. v < x) xs"
      by (intro filter_cong) auto
    with True show ?thesis by simp
  next
    case False
    with Cons.prems have "v \<in> set xs" "x < v" by (auto simp: order_less_le)
    with Cons show ?thesis by simp
  qed
qed

lemma remove_sorted_filter:
  fixes xs :: "('a::linorder) list"
  assumes "sorted xs" "distinct xs" "v \<in> set xs"
  shows "take (length (filter (\<lambda>x. x < v) xs)) xs @ drop (length (filter (\<lambda>x. x < v) xs) + 1) xs
         = filter (\<lambda>x. x \<noteq> v) xs"
    and "length (filter (\<lambda>x. x < v) xs) < length xs"
    and "xs ! length (filter (\<lambda>x. x < v) xs) = v"
proof -
  let ?k = "length (filter (\<lambda>x. x < v) xs)"
  have t: "take ?k xs = filter (\<lambda>x. x < v) xs" and d: "drop ?k xs = v # filter (\<lambda>x. v < x) xs"
    using sorted_take_drop_filter[OF assms(1), of v] filter_ge_sorted_distinct[OF assms] by simp_all
  from d have "length (drop ?k xs) > 0" by simp
  then show lt: "?k < length xs" by simp
  from d lt show "xs ! ?k = v" by (metis hd_drop_conv_nth list.sel(1))
  have "drop (?k + 1) xs = tl (drop ?k xs)" by (simp add: drop_Suc tl_drop)
  with d have d1: "drop (?k + 1) xs = filter (\<lambda>x. v < x) xs" by simp
  have "xs = take ?k xs @ drop ?k xs" by simp
  then have "filter (\<lambda>x. x \<noteq> v) xs = filter (\<lambda>x. x \<noteq> v) (take ?k xs) @ filter (\<lambda>x. x \<noteq> v) (drop ?k xs)"
    by (metis filter_append)
  also have "\<dots> = filter (\<lambda>x. x < v) xs @ filter (\<lambda>x. v < x) xs"
  proof -
    have "filter (\<lambda>x. x \<noteq> v) (filter (\<lambda>x. x < v) xs) = filter (\<lambda>x. x < v) xs"
      unfolding filter_id_conv by auto
    moreover have "filter (\<lambda>x. x \<noteq> v) (filter (\<lambda>x. v < x) xs) = filter (\<lambda>x. v < x) xs"
      unfolding filter_id_conv by auto
    ultimately show ?thesis unfolding t d by simp
  qed
  finally show "take ?k xs @ drop (?k + 1) xs = filter (\<lambda>x. x \<noteq> v) xs"
    using t d1 by simp
qed

lemma foldl_notify:
  assumes "\<And>r op. f (notify r op) = f r"
  shows "foldl (\<lambda>r key. notify r (f r key)) ring ks =
         ring\<lparr>notified := notified ring @ map (f ring) ks,
              notifiedLocked := notifiedLocked ring @ replicate (length ks) (mu ring)\<rparr>"
proof (induction ks arbitrary: ring)
  case Nil
  show ?case by simp
next
  case (Cons k ks)
  have "foldl (\<lambda>r key. notify r (f r key)) ring (k # ks) =
        foldl (\<lambda>r key. notify r (f r key)) (notify ring (f ring k)) ks" by simp
  also have "\<dots> = (notify ring (f ring k))\<lparr>notified := notified (notify ring (f ring k)) @ map (f (notify ring (f ring k))) ks,
              notifiedLocked := notifiedLocked (notify ring (f ring k)) @ replicate (length ks) (mu (notify ring (f ring k)))\<rparr>"
    by (rule Cons.IH)
  also have "\<dots> = ring\<lparr>notified := notified ring @ map (f ring) (k # ks),
              notifiedLocked := notifiedLocked ring @ replicate (length (k # ks)) (mu ring)\<rparr>"
    unfolding assms by (simp add: notify_def replicate_app_Cons_same)
  finally show ?case .
qed

lemma convertHash_eq:
  "convertHash ring sl hash =
     ring\<lparr>slicesByHash := (slicesByHash ring)(hash \<mapsto> sl),
          notified := notified ring @ removal_ops ring hash @ addition_ops ring sl hash,
          notifiedLocked := notifiedLocked ring @
             replicate (2 * length (map_get [] (keysByHash ring) hash)) (mu ring)\<rparr>"
proof -
  let ?ks = "map_get [] (keysByHash ring) hash"
  let ?prev = "map_get 0 (slicesByHash ring) hash"
  let ?f = "\<lambda>(r::'a Ring) key. \<lparr>OpKey = Key key, OpNode = map_get [] (nodesBySlice r) ?prev,
                     Payload = map_get 0 (contentByKey r) (Key key),
                     Removed = True, Updated = False, RingChange = True\<rparr>"
  let ?g = "\<lambda>(r::'a Ring) key. \<lparr>OpKey = Key key, OpNode = map_get [] (nodesBySlice r) sl,
                     Payload = map_get 0 (contentByKey r) (Key key),
                     Removed = False, Updated = False, RingChange = True\<rparr>"
  have f: "foldl (\<lambda>r key. notify r (?f r key)) r ks =
         r\<lparr>notified := notified r @ map (?f r) ks,
              notifiedLocked := notifiedLocked r @ replicate (length ks) (mu r)\<rparr>" for r ks
    by (rule foldl_notify) (simp add: notify_def)
  have g: "foldl (\<lambda>r key. notify r (?g r key)) r ks =
         r\<lparr>notified := notified r @ map (?g r) ks,
              notifiedLocked := notifiedLocked r @ replicate (length ks) (mu r)\<rparr>" for r ks
    by (rule foldl_notify) (simp add: notify_def)
  show ?thesis
    unfolding convertHash_def Let_def f g
    by (simp add: removal_ops_def addition_ops_def replicate_add[symmetric] mult_2)
qed

lemma removal_ops_cong:
  "slicesByHash r1 h = slicesByHash r h \<Longrightarrow> nodesBySlice r1 = nodesBySlice r \<Longrightarrow>
   contentByKey r1 = contentByKey r \<Longrightarrow> keysByHash r1 = keysByHash r \<Longrightarrow>
   removal_ops r1 h = removal_ops r h"
  by (simp add: removal_ops_def map_get_def)

lemma addition_ops_cong:
  "nodesBySlice r1 = nodesBySlice r \<Longrightarrow>
   contentByKey r1 = contentByKey r \<Longrightarrow> keysByHash r1 = keysByHash r \<Longrightarrow>
   addition_ops r1 sl h = addition_ops r sl h"
  by (simp add: addition_ops_def map_get_def)

lemma length_ops:
  "length (removal_ops r h @ addition_ops r sl h) = 2 * length (map_get [] (keysByHash r) h)"
  by (simp add: removal_ops_def addition_ops_def)

lemma convert_fold_eq:
  assumes "distinct vs"
  shows "foldl (\<lambda>r h. convertHash r sl h) ring vs =
     ring\<lparr>slicesByHash := (\<lambda>h. if h \<in> set vs then Some sl else slicesByHash ring h),
          notified := notified ring @ reassign_ops ring sl vs,
          notifiedLocked := notifiedLocked ring @
             replicate (length (reassign_ops ring sl vs)) (mu ring)\<rparr>"
  using assms
proof (induction vs rule: rev_induct)
  case Nil
  show ?case by (simp add: reassign_ops_def)
next
  case (snoc h vs)
  let ?r1 = "ring\<lparr>slicesByHash := (\<lambda>h. if h \<in> set vs then Some sl else slicesByHash ring h),
          notified := notified ring @ reassign_ops ring sl vs,
          notifiedLocked := notifiedLocked ring @
             replicate (length (reassign_ops ring sl vs)) (mu ring)\<rparr>"
  from snoc.prems have d: "distinct vs" and h: "h \<notin> set vs" by simp_all
  have ih: "foldl (\<lambda>r h. convertHash r sl h) ring vs = ?r1" by (rule snoc.IH[OF d])
  have rem: "removal_ops ?r1 h = removal_ops ring h"
    by (rule removal_ops_cong) (use h in simp_all)
  have add: "addition_ops ?r1 sl h = addition_ops ring sl h"
    by (rule addition_ops_cong) simp_all
  have ops: "reassign_ops ring sl (vs @ [h]) =
             reassign_ops ring sl vs @ removal_ops ring h @ addition_ops ring sl h"
    by (simp add: reassign_ops_def)
  have upd: "(\<lambda>h. if h \<in> set vs then Some sl else slicesByHash ring h)(h \<mapsto> sl) =
             (\<lambda>x. if x = h \<or> x \<in> set vs then Some sl else slicesByHash ring x)"
    by (auto simp: fun_eq_iff)
  have len: "replicate (length (reassign_ops ring sl vs)) (mu ring) @
             replicate (2 * length (map_get [] (keysByHash ring) h)) (mu ring) =
             replicate (length (reassign_ops ring sl vs) +
               (length (removal_ops ring h) + length (addition_ops ring sl h))) (mu ring)"
    by (simp add: replicate_add mult_2 removal_ops_def addition_ops_def)
  have "foldl (\<lambda>r h. convertHash r sl h) ring (vs @ [h]) = convertHash ?r1 sl h"
    by (simp add: ih)
  also have "\<dots> = ring\<lparr>slicesByHash := (\<lambda>x. if x \<in> set (vs @ [h]) then Some sl else slicesByHash ring x),
          notified := notified ring @ reassign_ops ring sl (vs @ [h]),
          notifiedLocked := notifiedLocked ring @
             replicate (length (reassign_ops ring sl (vs @ [h]))) (mu ring)\<rparr>"
    unfolding convertHash_eq rem add
    by (simp add: upd ops len)
  finally show ?case .
qed

lemma convert_fold_fields:
  "hashes (foldl (\<lambda>r h. convertHash r sl h) ring vs) = hashes ring
   \<and> slices (foldl (\<lambda>r h. convertHash r sl h) ring vs) = slices ring
   \<and> empty_m (foldl (\<lambda>r h. convertHash r sl h) ring vs) = empty_m ring
   \<and> nodesBySlice (foldl (\<lambda>r h. convertHash r sl h) ring vs) = nodesBySlice ring
   \<and> vFactorByNode (foldl (\<lambda>r h. convertHash r sl h) ring vs) = vFactorByNode ring
   \<and> keysByHash (foldl (\<lambda>r h. convertHash r sl h) ring vs) = keysByHash ring
   \<and> contentByKey (foldl (\<lambda>r h. convertHash r sl h) ring vs) = contentByKey ring
   \<and> hashesByKey (foldl (\<lambda>r h. convertHash r sl h) ring vs) = hashesByKey ring
   \<and> mu (foldl (\<lambda>r h. convertHash r sl h) ring vs) = mu ring
   \<and> Hash (foldl (\<lambda>r h. convertHash r sl h) ring vs) = Hash ring
   \<and> BaseVFactor (foldl (\<lambda>r h. convertHash r sl h) ring vs) = BaseVFactor ring
   \<and> ToSliceName (foldl (\<lambda>r h. convertHash r sl h) ring vs) = ToSliceName ring
   \<and> slicesByHash (foldl (\<lambda>r h. convertHash r sl h) ring vs) =
       (\<lambda>h. if h \<in> set vs then Some sl else slicesByHash ring h)"
proof (induction vs rule: rev_induct)
  case Nil
  show ?case by simp
next
  case (snoc h vs)
  have upd: "(\<lambda>h. if h \<in> set vs then Some sl else slicesByHash ring h)(h \<mapsto> sl) =
             (\<lambda>x. if x = h \<or> x \<in> set vs then Some sl else slicesByHash ring x)"
    by (auto simp: fun_eq_iff)
  from snoc show ?case
    by (simp add: convertHash_eq upd)
qed

lemma hashes_convertHash [simp]: "hashes (convertHash r sl h) = hashes r"
  by (simp add: convertHash_eq)

lemma loop_up:
  "s \<le> e \<Longrightarrow> e < length (hashes r) \<Longrightarrow>
   convertHashes_loop r sl (int s) (int e) =
     Some (Inr (foldl (\<lambda>r h. convertHash r sl h) r (map (\<lambda>i. hashes r ! i) [s ..< e])))"
proof (induction "e - s" arbitrary: s r)
  case 0
  then have "s = e" by simp
  with 0 show ?case by (subst convertHashes_loop.simps) simp
next
  case (Suc n)
  then have lt: "s < e" and n: "n = e - Suc s" by simp_all
  have ih: "convertHashes_loop (convertHash r sl (hashes r ! s)) sl (int (Suc s)) (int e) =
     Some (Inr (foldl (\<lambda>r h. convertHash r sl h) (convertHash r sl (hashes r ! s))
                  (map (\<lambda>i. hashes (convertHash r sl (hashes r ! s)) ! i) [Suc s ..< e])))"
    by (rule Suc.hyps(1)[OF n]) (use lt Suc.prems in simp_all)
  have "convertHashes_loop r sl (int s) (int e) =
        convertHashes_loop (convertHash r sl (hashes r ! s)) sl (int (Suc s)) (int e)"
    using lt Suc.prems by (subst convertHashes_loop.simps) (simp add: Let_def add.commute)
  also note ih
  finally show ?case using lt by (simp add: upt_conv_Cons)
qed

lemma loop_wrap_start:
  "convertHashes_loop r sl (int (length (hashes r))) e = convertHashes_loop r sl 0 e"
  by (subst (1 2) convertHashes_loop.simps) (simp add: Let_def)

lemma loop_wrap:
  "e < s \<Longrightarrow> s \<le> length (hashes r) \<Longrightarrow>
   convertHashes_loop r sl (int s) (int e) =
     Some (Inr (foldl (\<lambda>r h. convertHash r sl h) r
        (map (\<lambda>i. hashes r ! i) ([s ..< length (hashes r)] @ [0 ..< e]))))"
proof (induction "length (hashes r) - s" arbitrary: s r)
  case 0
  then have s: "s = length (hashes r)" by simp
  with 0 have e: "e < length (hashes r)" by simp
  show ?case
    unfolding s loop_wrap_start
    using loop_up[of 0 e r sl] e by simp
next
  case (Suc n)
  then have lt: "s < length (hashes r)" and n: "n = length (hashes (convertHash r sl (hashes r ! s))) - Suc s"
    by simp_all
  have ih: "convertHashes_loop (convertHash r sl (hashes r ! s)) sl (int (Suc s)) (int e) =
     Some (Inr (foldl (\<lambda>r h. convertHash r sl h) (convertHash r sl (hashes r ! s))
        (map (\<lambda>i. hashes (convertHash r sl (hashes r ! s)) ! i)
           ([Suc s ..< length (hashes (convertHash r sl (hashes r ! s)))] @ [0 ..< e]))))"
    by (rule Suc.hyps(1)[OF n]) (use lt Suc.prems in simp_all)
  have "convertHashes_loop r sl (int s) (int e) =
        convertHashes_loop (convertHash r sl (hashes r ! s)) sl (int (Suc s)) (int e)"
    using lt Suc.prems by (subst convertHashes_loop.simps) (simp add: Let_def add.commute)
  also note ih
  finally show ?case using lt by (simp add: upt_conv_Cons)
qed

lemma convertHashes_nat:
  assumes "s \<le> length (hashes r)" "e \<le> length (hashes r)"
  shows "convertHashes r sl (int s) (int e) c =
         ret (foldl (\<lambda>r h. convertHash r sl h) r (reassigned (hashes r) (int s) (int e) c))"
proof (cases "c \<and> s = e \<or> s = 0 \<and> e = length (hashes r)")
  case True
  then show ?thesis by (auto simp: convertHashes_def reassigned_def)
next
  case False
  let ?n = "length (hashes r)"
  let ?e = "if e = ?n then 0 else e"
  from False assms have pos: "0 < ?n" by auto
  then have e: "?e < ?n" using assms by auto
  have conv: "convertHashes r sl (int s) (int e) c = convertHashes_loop r sl (int s) (int ?e)"
    using False by (auto simp: convertHashes_def)
  have re: "reassigned (hashes r) (int s) (int e) c =
            map (\<lambda>i. hashes r ! i) (circular_walk ?n s e)"
    using False by (auto simp: reassigned_def)
  show ?thesis
  proof (cases "s = ?n")
    case True
    have "convertHashes_loop r sl (int s) (int ?e) = convertHashes_loop r sl (int 0) (int ?e)"
      unfolding True using loop_wrap_start[of r sl "int ?e"] by simp
    also have "\<dots> = Some (Inr (foldl (\<lambda>r h. convertHash r sl h) r (map (\<lambda>i. hashes r ! i) [0 ..< ?e])))"
      by (rule loop_up) (use e in simp_all)
    finally show ?thesis
      unfolding conv re using True by (simp add: ret_def circular_walk_def Let_def)
  next
    case ne: False
    with assms have slt: "s < ?n" by simp
    show ?thesis
    proof (cases "s \<le> ?e")
      case True
      have "convertHashes_loop r sl (int s) (int ?e) =
            Some (Inr (foldl (\<lambda>r h. convertHash r sl h) r (map (\<lambda>i. hashes r ! i) [s ..< ?e])))"
        by (rule loop_up) (use True e in simp_all)
      then show ?thesis
        unfolding conv re using True ne by (simp add: ret_def circular_walk_def Let_def)
    next
      case gt: False
      have "convertHashes_loop r sl (int s) (int ?e) =
            Some (Inr (foldl (\<lambda>r h. convertHash r sl h) r
              (map (\<lambda>i. hashes r ! i) ([s ..< ?n] @ [0 ..< ?e]))))"
        by (rule loop_wrap) (use gt slt in simp_all)
      then show ?thesis
        unfolding conv re using gt ne by (simp add: ret_def circular_walk_def Let_def)
    qed
  qed
qed

lemma convertHashes_eq:
  assumes "0 \<le> s" "s \<le> int (length (hashes r))" "0 \<le> e" "e \<le> int (length (hashes r))"
  shows "convertHashes r sl s e c =
         ret (foldl (\<lambda>r h. convertHash r sl h) r (reassigned (hashes r) s e c))"
  using convertHashes_nat[of "nat s" r "nat e" sl c] assms by simp

section \<open>The range reassignment\<close>

text \<open>
  Claim C3. For a start index and an end index into the hash sequence (both in
  \<open>[0, len]\<close>), \<open>convertHashes\<close> returns, and it has reassigned the positions that
  the specification names, in that order: every position of the sequence if start equals
  end under the wraparound flag or the range spans the full sequence, otherwise the
  positions of the circular walk from start (inclusive) to end (exclusive). The ownership
  record afterwards maps exactly these positions to the target slice and is unchanged
  elsewhere.
\<close>

theorem convertHashes_reassigns:
  assumes "0 \<le> hashStartIndex" "hashStartIndex \<le> int (length (hashes ring))"
    and "0 \<le> hashEndIndex" "hashEndIndex \<le> int (length (hashes ring))"
  shows "convertHashes ring sl hashStartIndex hashEndIndex circle =
           Some (Inr (foldl (\<lambda>r h. convertHash r sl h) ring
                        (reassigned (hashes ring) hashStartIndex hashEndIndex circle)))
         \<and> slicesByHash (foldl (\<lambda>r h. convertHash r sl h) ring
                        (reassigned (hashes ring) hashStartIndex hashEndIndex circle)) =
           (\<lambda>h. if h \<in> set (reassigned (hashes ring) hashStartIndex hashEndIndex circle)
                then Some sl else slicesByHash ring h)"
  using convertHashes_eq[OF assms, of sl circle] convert_fold_fields[of sl ring]
  by (simp add: ret_def)

theorem convertHashes_reassigns_witness:
  "(0 :: int) \<le> 2 \<and> 2 \<le> int (length (hashes ring_homogeneous))
   \<and> (0 :: int) \<le> 1 \<and> 1 \<le> int (length (hashes ring_homogeneous))
   \<and> convertHashes ring_homogeneous 3 2 1 False =
        Some (Inr (foldl (\<lambda>r h. convertHash r 3 h) ring_homogeneous [5, 6, 1]))
   \<and> map (slicesByHash (foldl (\<lambda>r h. convertHash r 3 h) ring_homogeneous [5, 6, 1])) [1, 2, 5, 6] =
        [Some 3, Some 2, Some 3, Some 3]"
proof -
  have h: "hashes ring_homogeneous = [1, 2, 5, 6]"
    by (simp add: ring_homogeneous_def)
  have r: "reassigned [1, 2, 5, 6] 2 1 False = [5, 6, 1]"
    by (simp add: reassigned_def circular_walk_def)
  have s: "slicesByHash ring_homogeneous 2 = Some 2"
    by (simp add: ring_homogeneous_def)
  show ?thesis
    using convertHashes_reassigns[of 2 ring_homogeneous 1 3 False]
    by (simp add: h r s)
qed

lemma bnd_ret [simp]: "bnd (ret x) f = f x"
  by (simp add: bnd_def ret_def)

lemma bnd_Some_Inr [simp]: "bnd (Some (Inr x)) f = f x"
  by (simp add: bnd_def)

lemma bnd_Some_Inl [simp]: "bnd (Some (Inl p)) f = Some (Inl p)"
  by (simp add: bnd_def)

lemma bnd_None [simp]: "bnd None f = None"
  by (simp add: bnd_def)

lemma bnd_raise [simp]: "bnd (raise p) f = raise p"
  by (simp add: bnd_def raise_def)

lemma insertHash_ret:
  "insertHash ring h =
     ret (ring\<lparr>hashes :=
            (if findIndex (hashes ring) h \<ge> int (length (hashes ring))
                \<or> hashes ring ! nat (findIndex (hashes ring) h) \<noteq> h
             then take (nat (findIndex (hashes ring) h)) (hashes ring) @ [h] @
                  drop (nat (findIndex (hashes ring) h)) (hashes ring)
             else hashes ring)\<rparr>)"
  by (simp add: insertHash_def Let_def insertPreserveOrder_findIndex)

lemma insertHash_ex: "\<exists>hs. insertHash ring h = ret (ring\<lparr>hashes := hs\<rparr>)"
  unfolding insertHash_ret by (rule exI) (rule refl)

lemma index_prev_findIndex:
  assumes "xs \<noteq> []"
  shows "index xs (findPrevIndex xs (findIndex xs v)) =
         ret (xs ! nat (findPrevIndex xs (findIndex xs v)))"
  using findIndex_bounds[of xs v] assms
  by (auto simp: index_def findPrevIndex_def)

lemma Emplace_with_slices:
  assumes ik: "InnerKey k = Some ik"
    and new: "hashesByKey ring (Key ik) = None"
    and sl: "slices ring \<noteq> []"
  shows "\<exists>ring'. Emplace ring (Some k) hk = Some (Inr (ring', None))
     \<and> slicesByHash ring' =
         (slicesByHash ring)(Hash ring (if length hk = 0 then Key ik else hk ! 0) \<mapsto>
            slices ring ! nat (findPrevIndex (slices ring)
              (findIndex (slices ring) (Hash ring (if length hk = 0 then Key ik else hk ! 0)))))
     \<and> notified ring' = notified ring @
         [\<lparr>OpKey = Key ik,
           OpNode = map_get [] (nodesBySlice ring)
             (slices ring ! nat (findPrevIndex (slices ring)
                (findIndex (slices ring) (Hash ring (if length hk = 0 then Key ik else hk ! 0))))),
           Payload = Value k, Removed = False, Updated = False, RingChange = False\<rparr>]
     \<and> slices ring' = slices ring \<and> nodesBySlice ring' = nodesBySlice ring
     \<and> empty_m ring' = empty_m ring"
proof -
  let ?ring1 = "(lock ring)\<lparr>contentByKey := (contentByKey (lock ring))(Key ik \<mapsto> Value k)\<rparr>"
  obtain hs where hs: "insertHash ?ring1 (Hash ?ring1 (if length hk = 0 then Key ik else hk ! 0)) =
      ret (?ring1\<lparr>hashes := hs\<rparr>)"
    using insertHash_ex by blast
  have idx: "index (slices ring) (findPrevIndex (slices ring) (findIndex (slices ring) v)) =
         ret (slices ring ! nat (findPrevIndex (slices ring) (findIndex (slices ring) v)))" for v
    by (rule index_prev_findIndex[OF sl])
  show ?thesis
    unfolding Emplace_def
    using sl hs
    by (simp add: ik new Let_def idx insertPreserveOrder_findKeyIndex
          lock_def unlock_def notify_def ret_def)
qed


lemma takeWhile_filter_sorted:
  fixes xs :: "('a::linorder) list"
  shows "sorted xs \<Longrightarrow> takeWhile (\<lambda>x. x < v) xs = filter (\<lambda>x. x < v) xs"
proof (induction xs)
  case Nil
  show ?case by simp
next
  case (Cons x xs)
  show ?case
  proof (cases "x < v")
    case True
    with Cons show ?thesis by simp
  next
    case False
    with Cons.prems have "\<forall>y \<in> set xs. \<not> y < v" by auto
    then have "filter (\<lambda>x. x < v) xs = []" by (simp add: filter_empty_conv)
    with False show ?thesis by simp
  qed
qed


lemma findIndex_locate: "sorted xs \<Longrightarrow> findIndex xs v = int (locate xs v)"
  unfolding locate_def by (simp only: findIndex_sorted takeWhile_filter_sorted)

lemma locate_le: "locate xs v \<le> length xs"
  unfolding locate_def by (rule length_takeWhile_le)

lemma circular_prev_0: "circular_prev n 0 = n - 1"
proof (cases "n = 0")
  case True
  then show ?thesis by (simp add: circular_prev_def)
next
  case False
  then have "n - 1 < n" by simp
  then have "(n - 1) mod n = n - 1" by (rule mod_less)
  then show ?thesis by (simp add: circular_prev_def)
qed

lemma circular_prev_pos:
  assumes "0 < i" "i \<le> n"
  shows "circular_prev n i = i - 1"
proof -
  have e: "i + n - 1 = n + (i - 1)" using assms by linarith
  have l: "i - 1 < n" using assms by linarith
  have "(n + (i - 1)) mod n = (i - 1) mod n" by (rule mod_add_self1)
  also have "\<dots> = i - 1" using l by (rule mod_less)
  finally show ?thesis unfolding circular_prev_def e .
qed

lemma findPrevIndex_circular:
  assumes "xs \<noteq> []" "i \<le> length xs"
  shows "nat (findPrevIndex xs (int i)) = circular_prev (length xs) i"
proof (cases "i = 0")
  case True
  show ?thesis unfolding True circular_prev_0 by (simp add: findPrevIndex_def)
next
  case False
  then have p: "0 < i" by simp
  have "nat (findPrevIndex xs (int i)) = i - 1"
    using False by (simp add: findPrevIndex_def nat_diff_distrib')
  then show ?thesis unfolding circular_prev_pos[OF p assms(2)] .
qed

text \<open>
  Claim C10. \<open>Emplace\<close> of a new key into a ring with at least one slice, whose slice
  sequence is sorted, returns without error. It takes as the owner the slice at the
  circular-previous index of \<open>locate\<close> of the hash position (the last slice when
  \<open>locate\<close> yields 0) and writes it into the ownership record for that position,
  whatever was recorded there before, so also when the position already exists with
  another recorded owner. Its only notification is the one for the new key, against the
  node of that slice, and it is not a ring change: nothing is notified for the keys
  already stored at the position.
\<close>

theorem Emplace_recomputes_owner:
  assumes "InnerKey k = Some ik"
    and "hashesByKey ring (Key ik) = None"
    and "slices ring \<noteq> []"
    and "sorted (slices ring)"
  shows "\<exists>ring'. Emplace ring (Some k) hk = Some (Inr (ring', None))
     \<and> slicesByHash ring' =
         (slicesByHash ring)(Hash ring (if length hk = 0 then Key ik else hk ! 0) \<mapsto>
            slices ring ! circular_prev (length (slices ring))
              (locate (slices ring) (Hash ring (if length hk = 0 then Key ik else hk ! 0))))
     \<and> notified ring' = notified ring @
         [\<lparr>OpKey = Key ik,
           OpNode = map_get [] (nodesBySlice ring)
             (slices ring ! circular_prev (length (slices ring))
                (locate (slices ring) (Hash ring (if length hk = 0 then Key ik else hk ! 0)))),
           Payload = Value k, Removed = False, Updated = False, RingChange = False\<rparr>]"
proof -
  have e: "nat (findPrevIndex (slices ring) (findIndex (slices ring) v)) =
           circular_prev (length (slices ring)) (locate (slices ring) v)" for v
    unfolding findIndex_locate[OF assms(4)]
    by (rule findPrevIndex_circular[OF assms(3) locate_le])
  show ?thesis
    using Emplace_with_slices[OF assms(1,2,3), of hk] unfolding e by blast
qed

theorem Emplace_recomputes_owner_witness:
  "InnerKey \<lparr>InnerKey = Some \<lparr>Key = ''y'', Order = 0\<rparr>, Value = 8 :: nat\<rparr>
     = Some \<lparr>Key = ''y'', Order = 0\<rparr>
   \<and> hashesByKey ring_AB (Key \<lparr>Key = ''y'', Order = 0\<rparr>) = None
   \<and> slices ring_AB \<noteq> [] \<and> sorted (slices ring_AB)
   \<and> Hash ring_AB ''B0'' \<in> set (hashes ring_AB)
   \<and> slicesByHash ring_AB (Hash ring_AB ''B0'') = Some 20
   \<and> (\<exists>ring'. Emplace ring_AB
          (Some \<lparr>InnerKey = Some \<lparr>Key = ''y'', Order = 0\<rparr>, Value = 8\<rparr>) [''B0'']
            = Some (Inr (ring', None))
        \<and> slicesByHash ring' (Hash ring_AB ''B0'') = Some 10
        \<and> notified ring' = notified ring_AB @
            [\<lparr>OpKey = ''y'', OpNode = ''A'', Payload = 8,
              Removed = False, Updated = False, RingChange = False\<rparr>])
   \<and> hashesByKey ring_wrap (Key \<lparr>Key = ''y'', Order = 0\<rparr>) = None
   \<and> slices ring_wrap \<noteq> [] \<and> sorted (slices ring_wrap)
   \<and> Hash ring_wrap ''k3'' \<in> set (hashes ring_wrap)
   \<and> locate (slices ring_wrap) (Hash ring_wrap ''k3'') = 0
   \<and> (\<exists>ring'. Emplace ring_wrap
          (Some \<lparr>InnerKey = Some \<lparr>Key = ''y'', Order = 0\<rparr>, Value = 8\<rparr>) [''k3'']
            = Some (Inr (ring', None))
        \<and> slicesByHash ring' (Hash ring_wrap ''k3'') = Some 20
        \<and> notified ring' = notified ring_wrap @
            [\<lparr>OpKey = ''y'', OpNode = ''B'', Payload = 8,
              Removed = False, Updated = False, RingChange = False\<rparr>])"
proof -
  let ?k = "\<lparr>InnerKey = Some \<lparr>Key = ''y'', Order = 0\<rparr>, Value = 8 :: nat\<rparr>"
  let ?ik = "\<lparr>Key = ''y'', Order = 0\<rparr>"
  have a: "InnerKey ?k = Some ?ik" by simp
  have b: "hashesByKey ring_AB (Key ?ik) = None"
    by (simp add: ring_AB_def)
  have c: "slices ring_AB \<noteq> []"
    by (simp add: ring_AB_def)
  have d: "sorted (slices ring_AB)"
    by (simp add: ring_AB_def)
  have b': "hashesByKey ring_wrap (Key ?ik) = None"
    by (simp add: ring_wrap_def)
  have c': "slices ring_wrap \<noteq> []"
    by (simp add: ring_wrap_def)
  have d': "sorted (slices ring_wrap)"
    by (simp add: ring_wrap_def)
  have l: "locate [10, 20] 20 = Suc 0" "locate [10, 20] 5 = 0"
    by (simp_all add: locate_def)
  have p: "circular_prev (Suc (Suc 0)) (Suc 0) = 0" "circular_prev (Suc (Suc 0)) 0 = Suc 0"
    by (simp_all add: circular_prev_def)
  have e1: "Hash ring_AB ''B0'' \<in> set (hashes ring_AB)"
    and e2: "slicesByHash ring_AB (Hash ring_AB ''B0'') = Some 20"
    by (simp_all add: ring_AB_def default_ring_def example_hash_def)
  have e3: "Hash ring_wrap ''k3'' \<in> set (hashes ring_wrap)"
    and e4: "locate (slices ring_wrap) (Hash ring_wrap ''k3'') = 0"
    by (simp_all add: ring_wrap_def default_ring_def example_hash_def l)
  have x1: "\<exists>ring'. Emplace ring_AB (Some ?k) [''B0''] = Some (Inr (ring', None))
        \<and> slicesByHash ring' (Hash ring_AB ''B0'') = Some 10
        \<and> notified ring' = notified ring_AB @
            [\<lparr>OpKey = ''y'', OpNode = ''A'', Payload = 8,
              Removed = False, Updated = False, RingChange = False\<rparr>]"
    using Emplace_recomputes_owner[OF a b c d, of "[''B0'']"]
    by (auto simp: ring_AB_def default_ring_def example_hash_def l p map_get_def)
  note inst2 = Emplace_recomputes_owner[OF a b' c' d', of "[''k3'']"]
  have x2: "\<exists>ring'. Emplace ring_wrap (Some ?k) [''k3''] = Some (Inr (ring', None))
        \<and> slicesByHash ring' (Hash ring_wrap ''k3'') = Some 20
        \<and> notified ring' = notified ring_wrap @
            [\<lparr>OpKey = ''y'', OpNode = ''B'', Payload = 8,
              Removed = False, Updated = False, RingChange = False\<rparr>]"
    using inst2
    apply (simp add: ring_wrap_def default_ring_def example_hash_def l p map_get_def)
    apply (elim exE conjE)
    apply (rule exI)
    apply (intro conjI)
      apply assumption
     apply simp
    apply assumption
    done
  show ?thesis
    using a b c d e1 e2 x1 b' c' d' e3 e4 x2 by (intro conjI)
qed

lemma insertSlice_range_eq:
  assumes "distinct ks" and "\<forall>k v. empty_m ring k = Some v \<longrightarrow> v = k"
  shows "insertSlice_range ring sl ks =
     ring\<lparr>slicesByHash := (\<lambda>h. if h \<in> set ks \<and> empty_m ring h \<noteq> None then Some sl
                                else slicesByHash ring h),
          notified := notified ring @
             concat (map (addition_ops ring sl) (filter (\<lambda>k. empty_m ring k \<noteq> None) ks)),
          notifiedLocked := notifiedLocked ring @
             replicate (length (concat (map (addition_ops ring sl)
                          (filter (\<lambda>k. empty_m ring k \<noteq> None) ks)))) (mu ring),
          empty_m := (\<lambda>h. if h \<in> set ks then None else empty_m ring h)\<rparr>"
  using assms
proof (induction ks arbitrary: ring)
  case Nil
  show ?case by simp
next
  case (Cons k ks)
  from Cons.prems have d: "distinct ks" and k: "k \<notin> set ks" by simp_all
  show ?case
  proof (cases "empty_m ring k")
    case None
    have "insertSlice_range ring sl (k # ks) = insertSlice_range ring sl ks"
      by (simp add: None)
    also note Cons.IH[OF d Cons.prems(2)]
    finally show ?thesis
      by (rule trans) (rule Ring.equality; auto simp: None fun_eq_iff)
  next
    case (Some v)
    with Cons.prems(2) have v: "v = k" by blast
    let ?f = "\<lambda>(r::'a Ring) key. \<lparr>OpKey = Key key, OpNode = map_get [] (nodesBySlice r) sl,
                     Payload = map_get 0 (contentByKey r) (Key key),
                     Removed = False, Updated = False, RingChange = True\<rparr>"
    have g: "foldl (\<lambda>r key. notify r (?f r key)) r ks =
         r\<lparr>notified := notified r @ map (?f r) ks,
              notifiedLocked := notifiedLocked r @ replicate (length ks) (mu r)\<rparr>" for r ks
      by (rule foldl_notify) (simp add: notify_def)
    let ?r' = "ring\<lparr>slicesByHash := (slicesByHash ring)(k \<mapsto> sl),
                    notified := notified ring @ addition_ops ring sl k,
                    notifiedLocked := notifiedLocked ring @
                       replicate (length (addition_ops ring sl k)) (mu ring),
                    empty_m := (empty_m ring)(k := None)\<rparr>"
    have step: "insertSlice_range ring sl (k # ks) = insertSlice_range ?r' sl ks"
      by (simp add: Some v Let_def g addition_ops_def)
    have inv': "\<forall>k' v. empty_m ?r' k' = Some v \<longrightarrow> v = k'"
      using Cons.prems(2) by simp
    have ao: "addition_ops ?r' sl = addition_ops ring sl"
      by (rule ext) (simp add: addition_ops_def)
    have fl: "filter (\<lambda>k'. empty_m ?r' k' \<noteq> None) ks = filter (\<lambda>k'. empty_m ring k' \<noteq> None) ks"
      by (rule filter_cong) (use k in auto)
    show ?thesis
      unfolding step Cons.IH[OF d inv'] ao fl
      by (rule Ring.equality; use k in \<open>auto simp: Some fun_eq_iff replicate_add\<close>)
  qed
qed

lemma index_next_inserted:
  assumes "0 \<le> idx" "idx < int (length xs)"
  shows "index xs (findNextIndex xs idx) = ret (xs ! nat (findNextIndex xs idx))"
  using assms by (auto simp: index_def findNextIndex_def)

lemma insertSlice_first:
  assumes "nodesBySlice ring sl = None" "slices ring = []"
  shows "insertSlice ring sl node ord =
     ret (insertSlice_range
            (ring\<lparr>slices := [sl], nodesBySlice := (nodesBySlice ring)(sl \<mapsto> node)\<rparr>) sl ord, None)"
  using assms findIndex_bounds[of "[]" sl]
  by (simp add: insertSlice_def insertPreserveOrder_findIndex Let_def)

lemma insertSlice_next:
  assumes "nodesBySlice ring sl = None" "slices ring \<noteq> []"
  shows "insertSlice ring sl node ord =
     ret (foldl (\<lambda>r h. convertHash r sl h)
            (ring\<lparr>slices := take (nat (findIndex (slices ring) sl)) (slices ring) @ [sl] @
                              drop (nat (findIndex (slices ring) sl)) (slices ring),
                  nodesBySlice := (nodesBySlice ring)(sl \<mapsto> node)\<rparr>)
            (reassigned (hashes ring) (findIndex (hashes ring) sl)
               (findIndex (hashes ring)
                  ((take (nat (findIndex (slices ring) sl)) (slices ring) @ [sl] @
                    drop (nat (findIndex (slices ring) sl)) (slices ring)) !
                   nat (findNextIndex
                     (take (nat (findIndex (slices ring) sl)) (slices ring) @ [sl] @
                      drop (nat (findIndex (slices ring) sl)) (slices ring))
                     (findIndex (slices ring) sl))))
               ((take (nat (findIndex (slices ring) sl)) (slices ring) @ [sl] @
                    drop (nat (findIndex (slices ring) sl)) (slices ring)) !
                   nat (findNextIndex
                     (take (nat (findIndex (slices ring) sl)) (slices ring) @ [sl] @
                      drop (nat (findIndex (slices ring) sl)) (slices ring))
                     (findIndex (slices ring) sl)) < sl)), None)"
proof -
  let ?k = "findIndex (slices ring) sl"
  let ?ss = "take (nat ?k) (slices ring) @ [sl] @ drop (nat ?k) (slices ring)"
  let ?r1 = "ring\<lparr>slices := ?ss, nodesBySlice := (nodesBySlice ring)(sl \<mapsto> node)\<rparr>"
  have kb: "0 \<le> ?k" "?k \<le> int (length (slices ring))"
    using findIndex_bounds[of "slices ring" sl] by simp_all
  have len: "length ?ss = length (slices ring) + 1" using kb by simp
  have ne1: "length ?ss \<noteq> 1" using assms(2) len by simp
  have idx: "index ?ss (findNextIndex ?ss ?k) = ret (?ss ! nat (findNextIndex ?ss ?k))"
    by (rule index_next_inserted) (use kb len in simp_all)
  have conv: "convertHashes ?r1 sl (findIndex (hashes ?r1) sl) (findIndex (hashes ?r1) v) c =
         ret (foldl (\<lambda>r h. convertHash r sl h) ?r1
                (reassigned (hashes ?r1) (findIndex (hashes ?r1) sl) (findIndex (hashes ?r1) v) c))"
    for v c
    by (rule convertHashes_eq) (use findIndex_bounds in simp_all)
  show ?thesis
    unfolding insertSlice_def insertPreserveOrder_findIndex
    using idx conv assms(2) kb
    by (auto simp: assms(1) Let_def)
qed

text \<open>
  Claim C4, as amended. When a slice is inserted into a ring without slices, every hash
  position of the unassigned pool is moved into the ownership record, owned by the new
  slice, and the pool is empty afterwards. The positions are moved in the order in which
  the iteration over the pool map yields them (\<open>ord\<close>), each once; for every key at a
  moved position, in the order of its key list, one notification against the node of
  the new slice is emitted, with \<open>RingChange\<close> set and \<open>Removed\<close> not set. The pool
  holds every position under itself, as every write to it does.
\<close>

theorem insertSlice_first_slice_drains_pool:
  assumes "slices ring = []" and "nodesBySlice ring sl = None"
    and "distinct ord" and "set ord = dom (empty_m ring)"
    and "\<forall>k v. empty_m ring k = Some v \<longrightarrow> v = k"
  shows "\<exists>ring'. insertSlice ring sl node ord = Some (Inr (ring', None))
     \<and> empty_m ring' = Map.empty
     \<and> slicesByHash ring' =
         (\<lambda>h. if h \<in> dom (empty_m ring) then Some sl else slicesByHash ring h)
     \<and> notified ring' = notified ring @
         concat (map (\<lambda>h. map (\<lambda>key. \<lparr>OpKey = Key key, OpNode = node,
                                      Payload = map_get 0 (contentByKey ring) (Key key),
                                      Removed = False, Updated = False, RingChange = True\<rparr>)
                             (map_get [] (keysByHash ring) h)) ord)"
proof -
  let ?r1 = "ring\<lparr>slices := [sl], nodesBySlice := (nodesBySlice ring)(sl \<mapsto> node)\<rparr>"
  have inv: "\<forall>k v. empty_m ?r1 k = Some v \<longrightarrow> v = k" using assms(5) by simp
  have fl: "filter (\<lambda>k. empty_m ?r1 k \<noteq> None) ord = ord"
    unfolding filter_id_conv using assms(4) by auto
  have ao: "addition_ops ?r1 sl =
      (\<lambda>h. map (\<lambda>key. \<lparr>OpKey = Key key, OpNode = node,
                                      Payload = map_get 0 (contentByKey ring) (Key key),
                                      Removed = False, Updated = False, RingChange = True\<rparr>)
                             (map_get [] (keysByHash ring) h))"
    by (rule ext) (simp add: addition_ops_def map_get_def)
  have e: "(\<lambda>h. if h \<in> set ord then None else empty_m ?r1 h) = Map.empty"
    using assms(4) by (auto simp: fun_eq_iff)
  have s: "(\<lambda>h. if h \<in> set ord \<and> empty_m ?r1 h \<noteq> None then Some sl else slicesByHash ?r1 h) =
           (\<lambda>h. if h \<in> dom (empty_m ring) then Some sl else slicesByHash ring h)"
    using assms(4) by (auto simp: fun_eq_iff)
  show ?thesis
    unfolding insertSlice_first[OF assms(2,1)] insertSlice_range_eq[OF assms(3) inv] fl ao e s
    by (simp add: ret_def)
qed

lemma ring_pool_a: "slices ring_pool = []" by (simp add: ring_pool_def default_ring_def)
lemma ring_pool_b: "nodesBySlice ring_pool 10 = None" by (simp add: ring_pool_def default_ring_def)
lemma ring_pool_e: "empty_m ring_pool = [5 \<mapsto> 5, 15 \<mapsto> 15]" by (simp add: ring_pool_def)
lemma ring_pool_d: "dom (empty_m ring_pool) = {5, 15}"
  unfolding ring_pool_e by auto
lemma ring_pool_inv: "\<forall>k v. empty_m ring_pool k = Some v \<longrightarrow> v = k"
  unfolding ring_pool_e by (simp split: if_splits)

theorem insertSlice_first_slice_drains_pool_witness:
  "slices ring_pool = [] \<and> nodesBySlice ring_pool 10 = None
   \<and> distinct [5, 15 :: uint64] \<and> set [5, 15] = dom (empty_m ring_pool)
   \<and> empty_m ring_pool = [5 \<mapsto> 5, 15 \<mapsto> 15]
   \<and> (\<exists>ring'. insertSlice ring_pool 10 ''A'' [5, 15] = Some (Inr (ring', None))
        \<and> empty_m ring' = Map.empty
        \<and> slicesByHash ring' 5 = Some 10 \<and> slicesByHash ring' 15 = Some 10
        \<and> notified ring' =
            [\<lparr>OpKey = ''k3'', OpNode = ''A'', Payload = 3,
              Removed = False, Updated = False, RingChange = True\<rparr>,
             \<lparr>OpKey = ''k1'', OpNode = ''A'', Payload = 1,
              Removed = False, Updated = False, RingChange = True\<rparr>])"
proof -
  have c: "distinct [5, 15 :: uint64]" by simp
  have d: "set [5, 15] = dom (empty_m ring_pool)" unfolding ring_pool_d by auto
  from insertSlice_first_slice_drains_pool[OF ring_pool_a ring_pool_b c d ring_pool_inv, of "''A''"]
  obtain ring' where r: "insertSlice ring_pool 10 ''A'' [5, 15] = Some (Inr (ring', None))"
    and em: "empty_m ring' = Map.empty"
    and sb: "slicesByHash ring' =
         (\<lambda>h. if h \<in> dom (empty_m ring_pool) then Some 10 else slicesByHash ring_pool h)"
    and nt: "notified ring' = notified ring_pool @
         concat (map (\<lambda>h. map (\<lambda>key. \<lparr>OpKey = Key key, OpNode = ''A'',
                                      Payload = map_get 0 (contentByKey ring_pool) (Key key),
                                      Removed = False, Updated = False, RingChange = True\<rparr>)
                             (map_get [] (keysByHash ring_pool) h)) [5, 15])"
    by blast
  have s5: "slicesByHash ring' 5 = Some 10" and s15: "slicesByHash ring' 15 = Some 10"
    unfolding sb ring_pool_d by simp_all
  have nt': "notified ring' =
            [\<lparr>OpKey = ''k3'', OpNode = ''A'', Payload = 3,
              Removed = False, Updated = False, RingChange = True\<rparr>,
             \<lparr>OpKey = ''k1'', OpNode = ''A'', Payload = 1,
              Removed = False, Updated = False, RingChange = True\<rparr>]"
    unfolding nt by (simp add: ring_pool_def default_ring_def map_get_def)
  show ?thesis
    using ring_pool_a ring_pool_b c d ring_pool_e r em s5 s15 nt' by blast
qed

text \<open>
  Claim C4 as stated fails on the order of the moves: the pool is a Go map, and an
  iteration that yields position 15 before position 5 moves them in that order.
\<close>

theorem insertSlice_first_slice_order_counterexample:
  "distinct [15, 5 :: uint64] \<and> set [15, 5] = dom (empty_m ring_pool)
   \<and> (case insertSlice ring_pool 10 ''A'' [15, 5] of
         Some (Inr (ring', e)) \<Rightarrow> map OpKey (notified ring') = [''k1'', ''k3'']
       | _ \<Rightarrow> False)"
proof -
  let ?r1 = "ring_pool\<lparr>slices := [10], nodesBySlice := (nodesBySlice ring_pool)(10 \<mapsto> ''A'')\<rparr>"
  have c: "distinct [15, 5 :: uint64]" by simp
  have d: "set [15, 5] = dom (empty_m ring_pool)" unfolding ring_pool_d by auto
  have inv: "\<forall>k v. empty_m ?r1 k = Some v \<longrightarrow> v = k" using ring_pool_inv by simp
  have n: "map OpKey (notified (insertSlice_range ?r1 10 [15, 5])) = [''k1'', ''k3'']"
    unfolding insertSlice_range_eq[OF c inv]
    by (simp add: ring_pool_def default_ring_def addition_ops_def map_get_def)
  show ?thesis
    unfolding insertSlice_first[OF ring_pool_b ring_pool_a]
    using c d n by (simp add: ret_def)
qed

lemma circular_walk_distinct:
  assumes "s \<le> n" "e \<le> n"
  shows "distinct (circular_walk n s e) \<and> (\<forall>i \<in> set (circular_walk n s e). i < n)"
  using assms by (auto simp: circular_walk_def Let_def)

lemma reassigned_distinct:
  assumes "distinct hs" "0 \<le> s" "s \<le> int (length hs)" "0 \<le> e" "e \<le> int (length hs)"
  shows "distinct (reassigned hs s e c) \<and> set (reassigned hs s e c) \<subseteq> set hs"
proof (cases "c \<and> s = e \<or> s = 0 \<and> e = int (length hs)")
  case True
  with assms(1) show ?thesis by (simp add: reassigned_def)
next
  case False
  let ?w = "circular_walk (length hs) (nat s) (nat e)"
  have w: "distinct ?w \<and> (\<forall>i \<in> set ?w. i < length hs)"
    by (rule circular_walk_distinct) (use assms in simp_all)
  have re: "reassigned hs s e c = map (\<lambda>i. hs ! i) ?w"
    by (subst reassigned_def) (simp only: False if_False)
  have "inj_on (\<lambda>i. hs ! i) (set ?w)"
    by (rule inj_on_nth) (use w assms(1) in auto)
  with w have "distinct (map (\<lambda>i. hs ! i) ?w)" by (simp add: distinct_map)
  moreover have "set (map (\<lambda>i. hs ! i) ?w) \<subseteq> set hs" using w by auto
  ultimately show ?thesis unfolding re by simp
qed

lemma reassigned_findIndex_distinct:
  assumes "distinct hs"
  shows "distinct (reassigned hs (findIndex hs a) (findIndex hs b) c)
         \<and> set (reassigned hs (findIndex hs a) (findIndex hs b) c) \<subseteq> set hs"
  by (rule reassigned_distinct[OF assms]) (use findIndex_bounds in simp_all)

lemma reassign_ops_count:
  "length (filter Removed (reassign_ops r sl vs)) =
     sum_list (map (\<lambda>h. length (map_get [] (keysByHash r) h)) vs)
   \<and> length (filter (\<lambda>op. \<not> Removed op) (reassign_ops r sl vs)) =
     sum_list (map (\<lambda>h. length (map_get [] (keysByHash r) h)) vs)"
  by (induction vs) (simp_all add: reassign_ops_def removal_ops_def addition_ops_def o_def)

lemma findIndex_member_lt:
  assumes "sorted xs" "v \<in> set xs"
  shows "findIndex xs v < int (length xs)"
  unfolding findIndex_sorted[OF assms(1)]
  using length_filter_less[OF assms(2), of "\<lambda>x. x < v"] by simp

lemma removeSlice_absent:
  "nodesBySlice ring sl = None \<Longrightarrow> removeSlice ring sl = ret ring"
  by (simp add: removeSlice_def)

lemma index_prev_in_range:
  assumes "0 \<le> idx" "idx < int (length xs)"
  shows "index xs (findPrevIndex xs idx) = ret (xs ! nat (findPrevIndex xs idx))"
  using assms by (auto simp: index_def findPrevIndex_def)

lemma removeSlice_other:
  assumes "nodesBySlice ring sl = Some n" "length (slices ring) \<noteq> 1"
    and "findIndex (slices ring) sl < int (length (slices ring))"
  shows "removeSlice ring sl =
     ret ((foldl (\<lambda>r h. convertHash r (slices ring ! nat (findPrevIndex (slices ring) (findIndex (slices ring) sl))) h)
            ring
            (reassigned (hashes ring) (findIndex (hashes ring) sl)
               (findIndex (hashes ring)
                  (slices ring ! nat (findNextIndex (slices ring) (findIndex (slices ring) sl))))
               (slices ring ! nat (findNextIndex (slices ring) (findIndex (slices ring) sl)) < sl)))
          \<lparr>slices := fst (removeIndex (slices ring) (findIndex (slices ring) sl)),
           nodesBySlice := (nodesBySlice ring)(sl := None)\<rparr>)"
proof -
  let ?k = "findIndex (slices ring) sl"
  have kb: "0 \<le> ?k" using findIndex_bounds[of "slices ring" sl] by simp
  have ip: "index (slices ring) (findPrevIndex (slices ring) ?k) =
            ret (slices ring ! nat (findPrevIndex (slices ring) ?k))"
    by (rule index_prev_in_range[OF kb assms(3)])
  have inx: "index (slices ring) (findNextIndex (slices ring) ?k) =
            ret (slices ring ! nat (findNextIndex (slices ring) ?k))"
    by (rule index_next_inserted[OF kb assms(3)])
  have conv: "convertHashes ring p (findIndex (hashes ring) sl) (findIndex (hashes ring) v) c =
         ret (foldl (\<lambda>r h. convertHash r p h) ring
                (reassigned (hashes ring) (findIndex (hashes ring) sl) (findIndex (hashes ring) v) c))"
    for v c p
    by (rule convertHashes_eq) (use findIndex_bounds in simp_all)
  show ?thesis
    unfolding removeSlice_def
    using assms(2)
    by (simp add: assms(1) Let_def ip inx conv convert_fold_fields)
qed

lemma reassign_ops_cong:
  "slicesByHash r1 = slicesByHash r \<Longrightarrow> nodesBySlice r1 = nodesBySlice r \<Longrightarrow>
   contentByKey r1 = contentByKey r \<Longrightarrow> keysByHash r1 = keysByHash r \<Longrightarrow>
   reassign_ops r1 sl vs = reassign_ops r sl vs"
  by (simp add: reassign_ops_def removal_ops_def addition_ops_def)

lemma insertSlice_events:
  assumes "nodesBySlice ring sl = None" "slices ring \<noteq> []" "distinct (hashes ring)"
  shows "\<exists>ring' vs. insertSlice ring sl node ord = Some (Inr (ring', None))
        \<and> distinct vs \<and> set vs \<subseteq> set (hashes ring)
        \<and> slicesByHash ring' = (\<lambda>h. if h \<in> set vs then Some sl else slicesByHash ring h)
        \<and> notified ring' = notified ring @
             reassign_ops (ring\<lparr>nodesBySlice := (nodesBySlice ring)(sl \<mapsto> node)\<rparr>) sl vs"
proof -
  let ?ss = "take (nat (findIndex (slices ring) sl)) (slices ring) @ [sl] @
                              drop (nat (findIndex (slices ring) sl)) (slices ring)"
  let ?r1 = "ring\<lparr>slices := ?ss, nodesBySlice := (nodesBySlice ring)(sl \<mapsto> node)\<rparr>"
  let ?next = "?ss ! nat (findNextIndex ?ss (findIndex (slices ring) sl))"
  let ?vs = "reassigned (hashes ring) (findIndex (hashes ring) sl)
               (findIndex (hashes ring) ?next) (?next < sl)"
  have d: "distinct ?vs \<and> set ?vs \<subseteq> set (hashes ring)"
    by (rule reassigned_findIndex_distinct[OF assms(3)])
  have ro: "reassign_ops ?r1 sl ?vs =
            reassign_ops (ring\<lparr>nodesBySlice := (nodesBySlice ring)(sl \<mapsto> node)\<rparr>) sl ?vs"
    by (rule reassign_ops_cong) simp_all
  have res: "insertSlice ring sl node ord =
     Some (Inr (foldl (\<lambda>r h. convertHash r sl h) ?r1 ?vs, None))"
    unfolding insertSlice_next[OF assms(1,2)] ret_def ..
  show ?thesis
    apply (rule exI[of _ "foldl (\<lambda>r h. convertHash r sl h) ?r1 ?vs"])
    apply (rule exI[of _ ?vs])
    apply (rule conjI[OF res])
    apply (rule conjI[OF conjunct1[OF d]])
    apply (rule conjI[OF conjunct2[OF d]])
    unfolding convert_fold_eq[OF conjunct1[OF d]] ro
    apply (simp cong: if_cong)
    done
qed

lemma removeSlice_events:
  assumes "nodesBySlice ring sl \<noteq> None" "length (slices ring) \<noteq> 1"
    and "sorted (slices ring)" "sl \<in> set (slices ring)" "distinct (hashes ring)"
  shows "\<exists>ring' vs prev. removeSlice ring sl = Some (Inr ring')
        \<and> prev \<in> set (slices ring)
        \<and> distinct vs \<and> set vs \<subseteq> set (hashes ring)
        \<and> slicesByHash ring' = (\<lambda>h. if h \<in> set vs then Some prev else slicesByHash ring h)
        \<and> notified ring' = notified ring @ reassign_ops ring prev vs"
proof -
  let ?k = "findIndex (slices ring) sl"
  let ?prev = "slices ring ! nat (findPrevIndex (slices ring) ?k)"
  let ?next = "slices ring ! nat (findNextIndex (slices ring) ?k)"
  let ?vs = "reassigned (hashes ring) (findIndex (hashes ring) sl)
               (findIndex (hashes ring) ?next) (?next < sl)"
  let ?r' = "(foldl (\<lambda>r h. convertHash r ?prev h) ring ?vs)
          \<lparr>slices := fst (removeIndex (slices ring) ?k),
           nodesBySlice := (nodesBySlice ring)(sl := None)\<rparr>"
  from assms(1) obtain n where n: "nodesBySlice ring sl = Some n" by auto
  have lt: "?k < int (length (slices ring))"
    by (rule findIndex_member_lt[OF assms(3,4)])
  have kb: "0 \<le> ?k" using findIndex_bounds[of "slices ring" sl] by simp
  have pm: "?prev \<in> set (slices ring)"
  proof (rule nth_mem)
    have ge1: "1 \<le> length (slices ring)" using assms(4) by (cases "slices ring") auto
    show "nat (findPrevIndex (slices ring) ?k) < length (slices ring)"
    proof (cases "?k = 0")
      case True
      then have "findPrevIndex (slices ring) ?k = int (length (slices ring)) - 1"
        by (simp add: findPrevIndex_def)
      with ge1 show ?thesis by linarith
    next
      case False
      then have "findPrevIndex (slices ring) ?k = ?k - 1"
        by (simp add: findPrevIndex_def)
      with lt kb show ?thesis by linarith
    qed
  qed
  have d: "distinct ?vs \<and> set ?vs \<subseteq> set (hashes ring)"
    by (rule reassigned_findIndex_distinct[OF assms(5)])
  have res: "removeSlice ring sl = Some (Inr ?r')"
    unfolding removeSlice_other[OF n assms(2) lt] ret_def ..
  show ?thesis
    apply (rule exI[of _ ?r'])
    apply (rule exI[of _ ?vs])
    apply (rule exI[of _ ?prev])
    apply (rule conjI[OF res])
    apply (rule conjI[OF pm])
    apply (rule conjI[OF conjunct1[OF d]])
    apply (rule conjI[OF conjunct2[OF d]])
    unfolding convert_fold_eq[OF conjunct1[OF d]]
    apply (simp cong: if_cong)
    done
qed

lemma replicate_numeral_unfold:
  "replicate (numeral k) x = x # replicate (pred_numeral k) x"
  by (simp add: numeral_eq_Suc)

lemma ring_two_keys_insert:
  "insertSlice ring_two_keys 12 ''B'' [] =
     Some (Inr (ring_two_keys
       \<lparr>slices := [10, 12],
        nodesBySlice := [10 \<mapsto> ''A'', 12 \<mapsto> ''B''],
        slicesByHash := [15 \<mapsto> 12],
        notified :=
          [\<lparr>OpKey = ''key-1'', OpNode = ''A'', Payload = 1,
            Removed = True, Updated = False, RingChange = True\<rparr>,
           \<lparr>OpKey = ''key-2'', OpNode = ''A'', Payload = 2,
            Removed = True, Updated = False, RingChange = True\<rparr>,
           \<lparr>OpKey = ''key-1'', OpNode = ''B'', Payload = 1,
            Removed = False, Updated = False, RingChange = True\<rparr>,
           \<lparr>OpKey = ''key-2'', OpNode = ''B'', Payload = 2,
            Removed = False, Updated = False, RingChange = True\<rparr>],
        notifiedLocked := [False, False, False, False]\<rparr>, None))"
proof -
  have a: "nodesBySlice ring_two_keys 12 = None"
    by (simp add: ring_two_keys_def default_ring_def)
  have b: "slices ring_two_keys \<noteq> []"
    by (simp add: ring_two_keys_def)
  have s: "slices ring_two_keys = [10]" "hashes ring_two_keys = [15]"
    by (simp_all add: ring_two_keys_def default_ring_def)
  have f: "findIndex [10] 12 = 1" "findIndex [15] 12 = 0" "findIndex [15] 10 = 0"
    by (simp_all add: findIndex_sorted)
  show ?thesis
    unfolding insertSlice_next[OF a b] s f
    by (simp add: f findNextIndex_def reassigned_def convertHash_eq ret_def
        removal_ops_def addition_ops_def map_get_def ring_two_keys_def default_ring_def
        replicate_numeral_unfold)
qed

lemma ring_AB_remove:
  "\<exists>ring'. removeSlice ring_AB 20 = Some (Inr ring')
     \<and> slicesByHash ring' 20 = Some 10
     \<and> notified ring' = notified ring_AB @
          [\<lparr>OpKey = ''x'', OpNode = ''B'', Payload = 7,
            Removed = True, Updated = False, RingChange = True\<rparr>,
           \<lparr>OpKey = ''x'', OpNode = ''A'', Payload = 7,
            Removed = False, Updated = False, RingChange = True\<rparr>]"
proof -
  have a: "nodesBySlice ring_AB 20 = Some ''B''"
    by (simp add: ring_AB_def)
  have s: "slices ring_AB = [10, 20]" "hashes ring_AB = [20]"
    by (simp_all add: ring_AB_def)
  have b: "length (slices ring_AB) \<noteq> 1" by (simp add: s)
  have f: "findIndex [10, 20] 20 = 1" "findIndex [20] 20 = 0" "findIndex [20] 10 = 0"
    by (simp_all add: findIndex_sorted)
  have c: "findIndex (slices ring_AB) 20 < int (length (slices ring_AB))"
    by (simp add: s f)
  show ?thesis
    unfolding removeSlice_other[OF a b c] s f
    by (simp add: f findNextIndex_def findPrevIndex_def reassigned_def convertHash_eq ret_def
        removal_ops_def addition_ops_def map_get_def ring_AB_def default_ring_def)
qed

text \<open>
  Claim C5, as amended. A slice insertion into a ring that already has a slice, and a
  slice removal from a ring that keeps another slice, reassign a sequence \<open>vs\<close> of
  distinct hash positions (K is its length): the ownership record changes at these
  positions only, and the notifications of the operation are, for each position of
  \<open>vs\<close> in turn, one removal per key stored at the position, against the node of the
  recorded old owner, followed by one addition per key, against the node of the new
  owner, and nothing else. So the number of removals and the number of additions both
  equal the number of keys stored at the K positions, which is K when every position
  holds one key.
\<close>

theorem slice_change_notifications:
  "(nodesBySlice ring sl = None \<and> slices ring \<noteq> [] \<and> distinct (hashes ring) \<longrightarrow>
     (\<exists>ring' vs. insertSlice ring sl node ord = Some (Inr (ring', None))
        \<and> distinct vs \<and> set vs \<subseteq> set (hashes ring)
        \<and> slicesByHash ring' = (\<lambda>h. if h \<in> set vs then Some sl else slicesByHash ring h)
        \<and> notified ring' = notified ring @
             reassign_ops (ring\<lparr>nodesBySlice := (nodesBySlice ring)(sl \<mapsto> node)\<rparr>) sl vs
        \<and> length (filter Removed
             (reassign_ops (ring\<lparr>nodesBySlice := (nodesBySlice ring)(sl \<mapsto> node)\<rparr>) sl vs)) =
           sum_list (map (\<lambda>h. length (map_get [] (keysByHash ring) h)) vs)
        \<and> length (filter (\<lambda>op. \<not> Removed op)
             (reassign_ops (ring\<lparr>nodesBySlice := (nodesBySlice ring)(sl \<mapsto> node)\<rparr>) sl vs)) =
           sum_list (map (\<lambda>h. length (map_get [] (keysByHash ring) h)) vs)))
   \<and> (nodesBySlice ring sl \<noteq> None \<and> length (slices ring) \<noteq> 1 \<and> sorted (slices ring)
        \<and> sl \<in> set (slices ring) \<and> distinct (hashes ring) \<longrightarrow>
     (\<exists>ring' vs prev. removeSlice ring sl = Some (Inr ring')
        \<and> prev \<in> set (slices ring)
        \<and> distinct vs \<and> set vs \<subseteq> set (hashes ring)
        \<and> slicesByHash ring' = (\<lambda>h. if h \<in> set vs then Some prev else slicesByHash ring h)
        \<and> notified ring' = notified ring @ reassign_ops ring prev vs
        \<and> length (filter Removed (reassign_ops ring prev vs)) =
           sum_list (map (\<lambda>h. length (map_get [] (keysByHash ring) h)) vs)
        \<and> length (filter (\<lambda>op. \<not> Removed op) (reassign_ops ring prev vs)) =
           sum_list (map (\<lambda>h. length (map_get [] (keysByHash ring) h)) vs)))"
proof (intro conjI impI)
  assume h: "nodesBySlice ring sl = None \<and> slices ring \<noteq> [] \<and> distinct (hashes ring)"
  let ?r = "ring\<lparr>nodesBySlice := (nodesBySlice ring)(sl \<mapsto> node)\<rparr>"
  from h insertSlice_events[of ring sl node ord]
  obtain ring' vs where r: "insertSlice ring sl node ord = Some (Inr (ring', None))"
    "distinct vs" "set vs \<subseteq> set (hashes ring)"
    "slicesByHash ring' = (\<lambda>h. if h \<in> set vs then Some sl else slicesByHash ring h)"
    "notified ring' = notified ring @ reassign_ops ?r sl vs"
    by blast
  have c: "length (filter Removed (reassign_ops ?r sl vs)) =
           sum_list (map (\<lambda>h. length (map_get [] (keysByHash ring) h)) vs)"
       "length (filter (\<lambda>op. \<not> Removed op) (reassign_ops ?r sl vs)) =
           sum_list (map (\<lambda>h. length (map_get [] (keysByHash ring) h)) vs)"
    using reassign_ops_count[of ?r sl vs] by simp_all
  from r c show "\<exists>ring' vs. insertSlice ring sl node ord = Some (Inr (ring', None))
        \<and> distinct vs \<and> set vs \<subseteq> set (hashes ring)
        \<and> slicesByHash ring' = (\<lambda>h. if h \<in> set vs then Some sl else slicesByHash ring h)
        \<and> notified ring' = notified ring @ reassign_ops ?r sl vs
        \<and> length (filter Removed (reassign_ops ?r sl vs)) =
           sum_list (map (\<lambda>h. length (map_get [] (keysByHash ring) h)) vs)
        \<and> length (filter (\<lambda>op. \<not> Removed op) (reassign_ops ?r sl vs)) =
           sum_list (map (\<lambda>h. length (map_get [] (keysByHash ring) h)) vs)"
    by blast
next
  assume h: "nodesBySlice ring sl \<noteq> None \<and> length (slices ring) \<noteq> 1 \<and> sorted (slices ring)
        \<and> sl \<in> set (slices ring) \<and> distinct (hashes ring)"
  from h removeSlice_events[of ring sl]
  obtain ring' vs prev where r: "removeSlice ring sl = Some (Inr ring')"
    "prev \<in> set (slices ring)" "distinct vs" "set vs \<subseteq> set (hashes ring)"
    "slicesByHash ring' = (\<lambda>h. if h \<in> set vs then Some prev else slicesByHash ring h)"
    "notified ring' = notified ring @ reassign_ops ring prev vs"
    by blast
  note c = reassign_ops_count[of ring prev vs]
  from r c show "\<exists>ring' vs prev. removeSlice ring sl = Some (Inr ring')
        \<and> prev \<in> set (slices ring)
        \<and> distinct vs \<and> set vs \<subseteq> set (hashes ring)
        \<and> slicesByHash ring' = (\<lambda>h. if h \<in> set vs then Some prev else slicesByHash ring h)
        \<and> notified ring' = notified ring @ reassign_ops ring prev vs
        \<and> length (filter Removed (reassign_ops ring prev vs)) =
           sum_list (map (\<lambda>h. length (map_get [] (keysByHash ring) h)) vs)
        \<and> length (filter (\<lambda>op. \<not> Removed op) (reassign_ops ring prev vs)) =
           sum_list (map (\<lambda>h. length (map_get [] (keysByHash ring) h)) vs)"
    by blast
qed

lemma distinct_singleton_set:
  assumes "distinct vs" "set vs = {x}"
  shows "vs = [x]"
proof (cases vs)
  case Nil
  with assms(2) show ?thesis by simp
next
  case (Cons a as)
  with assms have "a = x" "set as \<subseteq> {x}" "a \<notin> set as" by auto
  then have "as = []" by (cases as) auto
  with Cons \<open>a = x\<close> show ?thesis by simp
qed

theorem slice_change_notifications_witness:
  "nodesBySlice ring_two_keys 12 = None \<and> slices ring_two_keys \<noteq> []
   \<and> distinct (hashes ring_two_keys)
   \<and> (\<exists>ring' vs. insertSlice ring_two_keys 12 ''B'' [] = Some (Inr (ring', None))
        \<and> vs = [15]
        \<and> notified ring' = notified ring_two_keys @
             reassign_ops (ring_two_keys\<lparr>nodesBySlice := (nodesBySlice ring_two_keys)(12 \<mapsto> ''B'')\<rparr>) 12 vs
        \<and> length (filter Removed
             (reassign_ops (ring_two_keys\<lparr>nodesBySlice := (nodesBySlice ring_two_keys)(12 \<mapsto> ''B'')\<rparr>) 12 vs)) = 2)
   \<and> nodesBySlice ring_AB 20 \<noteq> None \<and> length (slices ring_AB) \<noteq> 1 \<and> sorted (slices ring_AB)
   \<and> 20 \<in> set (slices ring_AB) \<and> distinct (hashes ring_AB)
   \<and> (\<exists>ring' vs prev. removeSlice ring_AB 20 = Some (Inr ring')
        \<and> vs = [20] \<and> prev = 10
        \<and> notified ring' = notified ring_AB @ reassign_ops ring_AB prev vs
        \<and> length (filter Removed (reassign_ops ring_AB prev vs)) = 1)"
proof -
  have a: "nodesBySlice ring_two_keys 12 = None \<and> slices ring_two_keys \<noteq> []
   \<and> distinct (hashes ring_two_keys)"
    by (simp add: ring_two_keys_def default_ring_def)
  have b: "nodesBySlice ring_AB 20 \<noteq> None \<and> length (slices ring_AB) \<noteq> 1 \<and> sorted (slices ring_AB)
   \<and> 20 \<in> set (slices ring_AB) \<and> distinct (hashes ring_AB)"
    by (simp add: ring_AB_def)
  note inst1 = slice_change_notifications[of ring_two_keys 12 "''B''" "[]"]
  from inst1 a obtain ring' vs where
    r: "insertSlice ring_two_keys 12 ''B'' [] = Some (Inr (ring', None))"
    and d: "distinct vs" "set vs \<subseteq> set (hashes ring_two_keys)"
    and s: "slicesByHash ring' = (\<lambda>h. if h \<in> set vs then Some 12 else slicesByHash ring_two_keys h)"
    and n: "notified ring' = notified ring_two_keys @
             reassign_ops (ring_two_keys\<lparr>nodesBySlice := (nodesBySlice ring_two_keys)(12 \<mapsto> ''B'')\<rparr>) 12 vs"
    and c: "length (filter Removed
             (reassign_ops (ring_two_keys\<lparr>nodesBySlice := (nodesBySlice ring_two_keys)(12 \<mapsto> ''B'')\<rparr>) 12 vs)) =
           sum_list (map (\<lambda>h. length (map_get [] (keysByHash ring_two_keys) h)) vs)"
    by blast
  from r have "slicesByHash ring' 15 = Some 12"
    unfolding ring_two_keys_insert by auto
  with s have "15 \<in> set vs"
    by (auto simp: ring_two_keys_def split: if_splits)
  moreover from d have "set vs \<subseteq> {15}" by (simp add: ring_two_keys_def)
  ultimately have "set vs = {15}" by auto
  with d(1) have vs: "vs = [15]" by (rule distinct_singleton_set)
  have c': "length (filter Removed
             (reassign_ops (ring_two_keys\<lparr>nodesBySlice := (nodesBySlice ring_two_keys)(12 \<mapsto> ''B'')\<rparr>) 12 vs)) = 2"
    using c unfolding vs by (simp add: ring_two_keys_def map_get_def)
  note inst2 = slice_change_notifications[of ring_AB 20]
  from inst2 b obtain ring2 vs2 prev where
    r2: "removeSlice ring_AB 20 = Some (Inr ring2)"
    and p2: "prev \<in> set (slices ring_AB)"
    and d2: "distinct vs2" "set vs2 \<subseteq> set (hashes ring_AB)"
    and s2: "slicesByHash ring2 = (\<lambda>h. if h \<in> set vs2 then Some prev else slicesByHash ring_AB h)"
    and n2: "notified ring2 = notified ring_AB @ reassign_ops ring_AB prev vs2"
    and c2: "length (filter Removed (reassign_ops ring_AB prev vs2)) =
           sum_list (map (\<lambda>h. length (map_get [] (keysByHash ring_AB) h)) vs2)"
    by blast
  from ring_AB_remove r2 have e2: "slicesByHash ring2 20 = Some 10" by auto
  with s2 have "20 \<in> set vs2 \<and> prev = 10"
    by (auto simp: ring_AB_def split: if_splits)
  moreover from d2 have "set vs2 \<subseteq> {20}" by (simp add: ring_AB_def)
  ultimately have sv2: "set vs2 = {20}" and prev: "prev = 10" by auto
  from d2(1) sv2 have vs2: "vs2 = [20]" by (rule distinct_singleton_set)
  have c2': "length (filter Removed (reassign_ops ring_AB prev vs2)) = 1"
    using c2 unfolding vs2 by (simp add: ring_AB_def map_get_def)
  from a b r vs n c' r2 vs2 prev n2 c2' show ?thesis by blast
qed

text \<open>
  Claim C5 as stated fails where keys share a hash position: the ring has the one hash
  position 15, with two keys; inserting the slice 12 reassigns this one position and
  emits two removals and two additions.
\<close>

theorem slice_change_notifications_counterexample:
  "hashes ring_two_keys = [15] \<and> slicesByHash ring_two_keys 15 = Some 10
   \<and> (case insertSlice ring_two_keys 12 ''B'' [] of
         Some (Inr (ring', e)) \<Rightarrow>
           slicesByHash ring' 15 = Some 12
           \<and> length (filter Removed (notified ring')) = 2
           \<and> length (notified ring') = 4
       | _ \<Rightarrow> False)"
  unfolding ring_two_keys_insert
  by (simp add: ring_two_keys_def)

lemma foldl_notify_fields:
  assumes "\<And>r op. f (notify r op) = f r"
  shows "slices (foldl (\<lambda>r key. notify r (f r key)) ring ks) = slices ring
   \<and> hashes (foldl (\<lambda>r key. notify r (f r key)) ring ks) = hashes ring
   \<and> empty_m (foldl (\<lambda>r key. notify r (f r key)) ring ks) = empty_m ring
   \<and> nodesBySlice (foldl (\<lambda>r key. notify r (f r key)) ring ks) = nodesBySlice ring
   \<and> vFactorByNode (foldl (\<lambda>r key. notify r (f r key)) ring ks) = vFactorByNode ring
   \<and> slicesByHash (foldl (\<lambda>r key. notify r (f r key)) ring ks) = slicesByHash ring
   \<and> keysByHash (foldl (\<lambda>r key. notify r (f r key)) ring ks) = keysByHash ring
   \<and> contentByKey (foldl (\<lambda>r key. notify r (f r key)) ring ks) = contentByKey ring
   \<and> hashesByKey (foldl (\<lambda>r key. notify r (f r key)) ring ks) = hashesByKey ring
   \<and> mu (foldl (\<lambda>r key. notify r (f r key)) ring ks) = mu ring
   \<and> Hash (foldl (\<lambda>r key. notify r (f r key)) ring ks) = Hash ring
   \<and> BaseVFactor (foldl (\<lambda>r key. notify r (f r key)) ring ks) = BaseVFactor ring
   \<and> ToSliceName (foldl (\<lambda>r key. notify r (f r key)) ring ks) = ToSliceName ring"
  unfolding foldl_notify[of f, OF assms] by simp


























end
